theory Spec2Isabelle
  imports Main "HOL-Library.Sublist"
begin

section \<open>Strings and the two regular expressions of generateNovel.js\<close>

text \<open>
  A JavaScript string is modelled as a \<^typ>\<open>string\<close>: one \<^typ>\<open>char\<close> stands
  for one code unit, so \<^const>\<open>length\<close> is the \<^verbatim>\<open>.length\<close> of the source.
  The white space of \<^verbatim>\<open>\s\<close> and of \<^verbatim>\<open>String.prototype.trim\<close> is, among the
  code units below 256: tab, line feed, vertical tab, form feed, carriage return,
  space and the no-break space.
\<close>

definition is_space :: "char \<Rightarrow> bool" where
  "is_space c \<longleftrightarrow>
     c \<in> set [CHR 0x09, CHR 0x0A, CHR 0x0B, CHR 0x0C, CHR 0x0D, CHR 0x20, CHR 0xA0]"

text \<open>\<^verbatim>\<open>s.trim()\<close>\<close>

definition trim :: "string \<Rightarrow> string" where
  "trim s = rev (dropWhile is_space (rev (dropWhile is_space s)))"

text \<open>
  \<^verbatim>\<open>s.replace(pat, rep)\<close> with a string pattern: the first occurrence of \<open>pat\<close> is
  replaced, a string without occurrence is returned as it is. (The only replacement
  used in the source is the empty string, which has no \<^verbatim>\<open>$\<close> pattern.)
\<close>

fun replace_first :: "string \<Rightarrow> string \<Rightarrow> string \<Rightarrow> string" where
  "replace_first pat rep [] = (if pat = [] then rep else [])"
| "replace_first pat rep (c # cs) =
     (if prefix pat (c # cs) then rep @ drop (length pat) (c # cs)
      else c # replace_first pat rep cs)"

text \<open>\<^verbatim>\<open>s.split('\n')\<close>: never empty, one more piece than there are line feeds.\<close>

fun split_lines :: "string \<Rightarrow> string list" where
  "split_lines [] = [[]]"
| "split_lines (c # cs) =
     (if c = CHR 0x0A then [] # split_lines cs
      else (case split_lines cs of l # ls \<Rightarrow> (c # l) # ls | [] \<Rightarrow> [[c]]))"

text \<open>\<^verbatim>\<open>xs.join(sep)\<close>\<close>

fun join :: "string \<Rightarrow> string list \<Rightarrow> string" where
  "join sep [] = []"
| "join sep [x] = x"
| "join sep (x # y # ys) = x @ sep @ join sep (y # ys)"

subsection \<open>\<^verbatim>\<open>/<think>([\s\S]*?)<\/think>/g\<close>\<close>

text \<open>
  The lazy group followed by the closing tag: the text up to the first
  \<^verbatim>\<open></think>\<close>, and what follows that tag.
\<close>

fun think_close :: "string \<Rightarrow> (string \<times> string) option" where
  "think_close [] = None"
| "think_close (c # cs) =
     (if prefix ''</think>'' (c # cs) then Some ([], drop 8 (c # cs))
      else (case think_close cs of
              None \<Rightarrow> None
            | Some (content, rest) \<Rightarrow> Some (c # content, rest)))"

text \<open>
  One \<^verbatim>\<open>thinkRegex.exec\<close> on the part of the response from \<^verbatim>\<open>lastIndex\<close> on: the
  start positions are tried from left to right; the result is the text skipped
  before the match, the captured group and the text after the match (where the next
  \<^verbatim>\<open>exec\<close> starts).
\<close>

fun think_exec :: "string \<Rightarrow> (string \<times> string \<times> string) option" where
  "think_exec [] = None"
| "think_exec (c # cs) =
     (case (if prefix ''<think>'' (c # cs) then think_close (drop 7 (c # cs)) else None) of
        Some (content, rest) \<Rightarrow> Some ([], content, rest)
      | None \<Rightarrow>
          (case think_exec cs of
             None \<Rightarrow> None
           | Some (skipped, content, rest) \<Rightarrow> Some (c # skipped, content, rest)))"

lemma think_close_length:
  "think_close s = Some (content, rest) \<Longrightarrow> length rest < length s"
proof (induction s arbitrary: content)
  case Nil
  then show ?case by simp
next
  case (Cons c cs)
  show ?case
  proof (cases "prefix ''</think>'' (c # cs)")
    case True
    with Cons.prems show ?thesis by auto
  next
    case False
    with Cons.prems obtain content' where "think_close cs = Some (content', rest)"
      by (auto split: option.splits)
    from Cons.IH [OF this] show ?thesis by simp
  qed
qed

lemma think_exec_length:
  "think_exec s = Some (skipped, content, rest) \<Longrightarrow> length rest < length s"
proof (induction s arbitrary: skipped)
  case Nil
  then show ?case by simp
next
  case (Cons c cs)
  show ?case
  proof (cases "if prefix ''<think>'' (c # cs) then think_close (drop 7 (c # cs)) else None")
    case None
    with Cons.prems obtain skipped' where "think_exec cs = Some (skipped', content, rest)"
      by (auto split: option.splits)
    from Cons.IH [OF this] show ?thesis by simp
  next
    case (Some p)
    with Cons.prems have "think_close (drop 7 (c # cs)) = Some (content, rest)"
      by (auto split: if_splits)
    from think_close_length [OF this] show ?thesis
      by (simp add: less_SucI less_imp_diff_less)
  qed
qed

subsection \<open>parseOllamaResponse\<close>

text \<open>
  The \<^verbatim>\<open>while\<close> loop of \<^verbatim>\<open>parseOllamaResponse\<close>. Its state is the part of
  \<^verbatim>\<open>response\<close> that the regular expression has not scanned yet and
  \<^verbatim>\<open>cleanedResponse\<close>; each match is removed from \<^verbatim>\<open>cleanedResponse\<close> by
  \<^verbatim>\<open>replace(fullMatch, '')\<close>, that is at its first occurrence there. (The
  \<^verbatim>\<open>console.log\<close> of the captured group is not modelled.)
\<close>

function think_loop :: "string \<Rightarrow> string \<Rightarrow> string" where
  "think_loop rest cleanedResponse =
     (case think_exec rest of
        None \<Rightarrow> cleanedResponse
      | Some (skipped, thinkContent, rest') \<Rightarrow>
          think_loop rest'
            (replace_first (''<think>'' @ thinkContent @ ''</think>'') [] cleanedResponse))"
  by pat_completeness auto
termination
  by (relation "measure (\<lambda>(rest, cleanedResponse). length rest)")
     (auto dest: think_exec_length)

definition parseOllamaResponse :: "string \<Rightarrow> string" where
  "parseOllamaResponse response = trim (think_loop response response)"

text \<open>
  What the specification describes: the input with every segment found by the scan
  removed where it stands.
\<close>

function strip_segments :: "string \<Rightarrow> string" where
  "strip_segments s =
     (case think_exec s of
        None \<Rightarrow> s
      | Some (skipped, thinkContent, rest) \<Rightarrow> skipped @ strip_segments rest)"
  by pat_completeness auto
termination
  by (relation "measure length") (auto dest: think_exec_length)

text \<open>The texts of the segments found by the scan (each \<^verbatim>\<open>fullMatch\<close>), in order.\<close>

function segments :: "string \<Rightarrow> string list" where
  "segments s =
     (case think_exec s of
        None \<Rightarrow> []
      | Some (skipped, thinkContent, rest) \<Rightarrow>
          (''<think>'' @ thinkContent @ ''</think>'') # segments rest)"
  by pat_completeness auto
termination
  by (relation "measure length") (auto dest: think_exec_length)

text \<open>
  Whether every segment found by the scan of \<open>rest\<close> stands, in \<open>before\<close> followed
  by \<open>rest\<close> with the earlier segments taken out, at the first place where its text
  occurs: its text does not occur in what remains before it.
\<close>

function first_occurrences :: "string \<Rightarrow> string \<Rightarrow> bool" where
  "first_occurrences before rest =
     (case think_exec rest of
        None \<Rightarrow> True
      | Some (skipped, thinkContent, rest') \<Rightarrow>
          \<not> sublist (''<think>'' @ thinkContent @ ''</think>'') (before @ skipped)
          \<and> first_occurrences (before @ skipped) rest')"
  by pat_completeness auto
termination
  by (relation "measure (\<lambda>(before, rest). length rest)") (auto dest: think_exec_length)

subsection \<open>extractJsonFromMarkdown\<close>

text \<open>
  \<^verbatim>\<open>/```json\s*([\s\S]*?)\s*```/\<close>, after the opening fence and its white space:
  the lazy group is the shortest text after which white space and the closing
  fence follow. (A back quote is no white space, so the greedy \<^verbatim>\<open>\s*\<close> before the
  closing fence has one way to match only.)
\<close>

fun fence_close :: "string \<Rightarrow> string option" where
  "fence_close [] = (if prefix ''```'' (dropWhile is_space []) then Some [] else None)"
| "fence_close (c # cs) =
     (if prefix ''```'' (dropWhile is_space (c # cs)) then Some []
      else (case fence_close cs of None \<Rightarrow> None | Some g \<Rightarrow> Some (c # g)))"

text \<open>
  \<^verbatim>\<open>text.match(jsonRegex)\<close>: the start positions are tried from left to right, the
  result is the captured group of the first match. (The greedy \<^verbatim>\<open>\s*\<close> after the
  opening fence takes all the white space: giving some of it back to the group
  matches nothing that the group starting after it does not match.)
\<close>

fun json_match :: "string \<Rightarrow> string option" where
  "json_match [] = None"
| "json_match (c # cs) =
     (case (if prefix ''```json'' (c # cs)
            then fence_close (dropWhile is_space (drop 7 (c # cs))) else None) of
        Some g \<Rightarrow> Some g
      | None \<Rightarrow> json_match cs)"

definition extractJsonFromMarkdown :: "string \<Rightarrow> string" where
  "extractJsonFromMarkdown text =
     (case json_match text of
        Some g \<Rightarrow> if g \<noteq> [] then trim g else text
      | None \<Rightarrow> text)"

section \<open>JavaScript values\<close>

text \<open>
  The value of \<^verbatim>\<open>JSON.parse\<close>. A number is kept as its decimal rendering (what
  \<^verbatim>\<open>String(n)\<close> gives), an object as the list of its own properties in the order of
  \<^verbatim>\<open>Object.keys\<close>. A JavaScript value that may be \<^verbatim>\<open>undefined\<close> is a
  \<open>json option\<close>, with \<^const>\<open>None\<close> for \<^verbatim>\<open>undefined\<close>.
\<close>

datatype json =
    JNull
  | JBool bool
  | JNumber string
  | JString string
  | JArray "json list"
  | JObject "(string \<times> json) list"

text \<open>
  What a run can throw: the three failures of a generation call (the specification
  calls the first two TransportError and the third ServiceError), and the
  \<^verbatim>\<open>TypeError\<close> and the \<^verbatim>\<open>RangeError\<close> of the JavaScript runtime.
\<close>

datatype error =
    FetchFailed
  | HttpStatus nat
  | BodyUndecodable
  | TypeError
  | RangeError

text \<open>Decimal rendering of an index or a chapter number (\<^verbatim>\<open>${i+1}\<close>).\<close>

definition digit_char :: "nat \<Rightarrow> char" where
  "digit_char d = char_of (of_char (CHR ''0'') + d)"

fun string_of_nat :: "nat \<Rightarrow> string" where
  "string_of_nat n =
     (let last_digit = digit_char (n mod 10)
      in if 10 \<le> n then string_of_nat (n div 10) @ [last_digit] else [last_digit])"

declare string_of_nat.simps [simp del]

declare think_loop.simps [simp del]

declare strip_segments.simps [simp del]

declare segments.simps [simp del]

declare first_occurrences.simps [simp del]

definition string_of_int :: "int \<Rightarrow> string" where
  "string_of_int i = (if i < 0 then ''-'' @ string_of_nat (nat (- i)) else string_of_nat (nat i))"

text \<open>
  \<^verbatim>\<open>v[i]\<close> for a value \<open>v\<close> that is not \<^verbatim>\<open>undefined\<close>: reading a property of
  \<^verbatim>\<open>null\<close> throws, an index out of range or an absent property gives
  \<^verbatim>\<open>undefined\<close>.
\<close>

fun property_at :: "json \<Rightarrow> nat \<Rightarrow> error + json option" where
  "property_at JNull i = Inl TypeError"
| "property_at (JArray xs) i = Inr (if i < length xs then Some (xs ! i) else None)"
| "property_at (JString s) i = Inr (if i < length s then Some (JString [s ! i]) else None)"
| "property_at (JObject kvs) i = Inr (map_of kvs (string_of_nat i))"
| "property_at (JBool b) i = Inr None"
| "property_at (JNumber n) i = Inr None"

text \<open>\<^verbatim>\<open>Object.keys(v)\<close>: throws on \<^verbatim>\<open>undefined\<close> and on \<^verbatim>\<open>null\<close>.\<close>

fun object_keys :: "json option \<Rightarrow> error + string list" where
  "object_keys None = Inl TypeError"
| "object_keys (Some JNull) = Inl TypeError"
| "object_keys (Some (JObject kvs)) = Inr (map fst kvs)"
| "object_keys (Some (JArray xs)) = Inr (map string_of_nat [0..<length xs])"
| "object_keys (Some (JString s)) = Inr (map string_of_nat [0..<length s])"
| "object_keys (Some (JBool b)) = Inr []"
| "object_keys (Some (JNumber n)) = Inr []"

text \<open>
  \<^verbatim>\<open>keys[0]\<close> used as a computed property name \<^verbatim>\<open>{ [keys[0]]: ... }\<close>: the name of
  \<^verbatim>\<open>undefined\<close> is the string \<^verbatim>\<open>undefined\<close>.
\<close>

fun first_key :: "string list \<Rightarrow> string" where
  "first_key [] = ''undefined''"
| "first_key (k # ks) = k"

text \<open>The results of a list of conversions, or the first error thrown among them.\<close>

fun collect :: "(error + 'a) list \<Rightarrow> error + 'a list" where
  "collect [] = Inr []"
| "collect (Inl e # rs) = Inl e"
| "collect (Inr a # rs) = (case collect rs of Inl e \<Rightarrow> Inl e | Inr as \<Rightarrow> Inr (a # as))"

text \<open>
  A value inside a template literal, \<^verbatim>\<open>`${v}`\<close>. An object is converted by the
  function found at its property \<^verbatim>\<open>toString\<close>, then \<^verbatim>\<open>valueOf\<close>: an object
  read by \<^verbatim>\<open>JSON.parse\<close> inherits \<^verbatim>\<open>Object.prototype.toString\<close>, unless it has
  a property \<^verbatim>\<open>toString\<close> of its own, which is no function; then no conversion
  gives a primitive value and a \<^verbatim>\<open>TypeError\<close> is thrown. An array joins the
  conversions of its elements, with nothing for \<^verbatim>\<open>null\<close>.
\<close>

fun js_to_string :: "json option \<Rightarrow> error + string" where
  "js_to_string None = Inr ''undefined''"
| "js_to_string (Some JNull) = Inr ''null''"
| "js_to_string (Some (JBool b)) = Inr (if b then ''true'' else ''false'')"
| "js_to_string (Some (JNumber n)) = Inr n"
| "js_to_string (Some (JString s)) = Inr s"
| "js_to_string (Some (JArray xs)) =
     (case collect (map (\<lambda>x. if x = JNull then Inr [] else js_to_string (Some x)) xs) of
        Inl e \<Rightarrow> Inl e
      | Inr parts \<Rightarrow> Inr (join '','' parts))"
| "js_to_string (Some (JObject kvs)) =
     (if ''toString'' \<in> set (map fst kvs) then Inl TypeError else Inr ''[object Object]'')"

text \<open>
  \<^verbatim>\<open>JSON.stringify(v)\<close> without indentation: a string is quoted, with the quote, the
  backslash and the control characters escaped; a number that is not finite (as
  \<^verbatim>\<open>JSON.parse('1e999')\<close>) is printed as \<^verbatim>\<open>null\<close>.
\<close>

definition hex_digit :: "nat \<Rightarrow> char" where
  "hex_digit n = (if n < 10 then char_of (48 + n) else char_of (87 + n))"

definition json_escape :: "char \<Rightarrow> string" where
  "json_escape c =
     (if c = CHR 0x22 then [CHR 0x5C, CHR 0x22]
      else if c = CHR 0x5C then [CHR 0x5C, CHR 0x5C]
      else if c = CHR 0x08 then [CHR 0x5C, CHR ''b'']
      else if c = CHR 0x0C then [CHR 0x5C, CHR ''f'']
      else if c = CHR 0x0A then [CHR 0x5C, CHR ''n'']
      else if c = CHR 0x0D then [CHR 0x5C, CHR ''r'']
      else if c = CHR 0x09 then [CHR 0x5C, CHR ''t'']
      else if (of_char c :: nat) < 32
        then [CHR 0x5C, CHR ''u'', CHR ''0'', CHR ''0'',
              hex_digit (of_char c div 16), hex_digit (of_char c mod 16)]
      else [c])"

definition json_quote :: "string \<Rightarrow> string" where
  "json_quote s = [CHR 0x22] @ concat (map json_escape s) @ [CHR 0x22]"

fun json_stringify :: "json \<Rightarrow> string" where
  "json_stringify JNull = ''null''"
| "json_stringify (JBool b) = (if b then ''true'' else ''false'')"
| "json_stringify (JNumber n) = (if n = ''Infinity'' \<or> n = ''-Infinity'' then ''null'' else n)"
| "json_stringify (JString s) = json_quote s"
| "json_stringify (JArray xs) = ''['' @ join '','' (map json_stringify xs) @ '']''"
| "json_stringify (JObject kvs) =
     ''{'' @ join '','' (map (\<lambda>(k, v). json_quote k @ '':'' @ json_stringify v) kvs) @ ''}''"

section \<open>The generation service\<close>

text \<open>
  What \<^verbatim>\<open>fetch\<close> and \<^verbatim>\<open>response.json()\<close> can give: no response at all, or a
  status with a body, which decodes or not; the decoded body has the field
  \<^verbatim>\<open>response\<close> or not.
\<close>

datatype http_body = Undecodable | Decoded "string option"

datatype fetch_result = Unreachable | Response nat http_body

text \<open>A request: the model and the prompt of the posted body (\<^verbatim>\<open>stream\<close> is always false).\<close>

type_synonym request = "string \<times> string"

text \<open>
  What the program is run with: the two options read by \<^verbatim>\<open>callOllama\<close>, the
  service, which answers the \<open>k\<close>-th request of the run, the runtime's
  \<^verbatim>\<open>JSON.parse\<close> (\<^const>\<open>None\<close> when it throws), and the runtime's rendering of the
  whole numbers beyond \<open>2\<^sup>5\<^sup>3\<close>.
\<close>

record runtime =
  language :: string
  ollamaModel :: string
  service :: "nat \<Rightarrow> request \<Rightarrow> fetch_result"
  json_parse :: "string \<Rightarrow> json option"
  big_number_to_string :: "int \<Rightarrow> string"

text \<open>
  \<^verbatim>\<open>`${n}`\<close> for a whole number \<open>n\<close>. Up to \<open>2\<^sup>5\<^sup>3\<close> the number is rendered by its
  decimal digits (it is a double, and no shorter decimal reads back as it). Beyond,
  the runtime renders the shortest decimal that reads back as the double, in
  exponent form from \<open>10\<^sup>2\<^sup>1\<close> on.
\<close>

definition number_to_string :: "runtime \<Rightarrow> int \<Rightarrow> string" where
  "number_to_string env n =
     (if \<bar>n\<bar> \<le> 2 ^ 53 then string_of_int n else big_number_to_string env n)"

text \<open>The requests sent so far, oldest first.\<close>

type_synonym trace = "request list"

text \<open>An asynchronous function that always settles: its result or the error thrown, and the trace.\<close>

type_synonym 'a async = "trace \<Rightarrow> (error + 'a) \<times> trace"

text \<open>\<^verbatim>\<open>const a = await m; ...\<close>: an error thrown by \<open>m\<close> is thrown on.\<close>

definition await :: "'a async \<Rightarrow> ('a \<Rightarrow> 'b async) \<Rightarrow> 'b async" where
  "await m f tr = (case m tr of (Inl e, tr') \<Rightarrow> (Inl e, tr') | (Inr a, tr') \<Rightarrow> f a tr')"

text \<open>Lines 74 to 80 of \<^verbatim>\<open>callOllama\<close>: what is made of the answer of the service.\<close>

fun reply_of :: "fetch_result \<Rightarrow> error + string" where
  "reply_of Unreachable = Inl FetchFailed"
| "reply_of (Response status body) =
     (if \<not> (200 \<le> status \<and> status \<le> 299) then Inl (HttpStatus status)
      else (case body of
              Undecodable \<Rightarrow> Inl BodyUndecodable
            | Decoded None \<Rightarrow> Inl TypeError
            | Decoded (Some response) \<Rightarrow> Inr (parseOllamaResponse response)))"

definition ollama_request :: "runtime \<Rightarrow> string \<Rightarrow> request" where
  "ollama_request env prompt =
     (let languageInstruction =
            (if language env \<noteq> [] then ''Respond in the language '' @ language env @ ''. '' else []);
          modifiedPrompt = languageInstruction @ prompt
      in (ollamaModel env, modifiedPrompt))"

text \<open>\<^verbatim>\<open>callOllama\<close>: one request; the \<^verbatim>\<open>catch\<close> logs the error and throws it again.\<close>

definition callOllama :: "runtime \<Rightarrow> string \<Rightarrow> string async" where
  "callOllama env prompt tr =
     (let req = ollama_request env prompt
      in (reply_of (service env (length tr) req), tr @ [req]))"

section \<open>The pipeline stages\<close>

definition return :: "'a \<Rightarrow> 'a async" where
  "return a tr = (Inr a, tr)"

definition cover_prompt :: "string \<Rightarrow> string" where
  "cover_prompt plot =
     ''You are a creative assistant that writes a spec for the cover art of a book, based on the book's plot.\<newline>  \<newline>  Plot: ''
     @ plot
     @ ''\<newline>  \<newline>  Describe the cover we should create, based on the plot. This should be two sentences long, maximum.''"

definition generateCoverPrompt :: "runtime \<Rightarrow> string \<Rightarrow> string async" where
  "generateCoverPrompt env plot = callOllama env (cover_prompt plot)"

definition generatePlots :: "runtime \<Rightarrow> string \<Rightarrow> string list async" where
  "generatePlots env prompt =
     await (callOllama env
        (''You are a creative assistant that generates engaging fantasy novel plots.\<newline>  \<newline>  Generate 10 fantasy novel plots based on this prompt: ''
         @ prompt))
       (\<lambda>response. return (split_lines response))"

text \<open>\<^verbatim>\<open>${plots}\<close> is the array joined with commas.\<close>

definition selectMostEngaging :: "runtime \<Rightarrow> string list \<Rightarrow> string async" where
  "selectMostEngaging env plots =
     callOllama env
       (''You are an expert in writing fantastic fantasy novel plots.\<newline>  \<newline>  Here are a number of possible plots for a new novel: ''
        @ join '','' plots
        @ ''\<newline>  \<newline>  Now, write the final plot that we will go with. It can be one of these, a mix of the best elements of multiple, or something completely new and better. The most important thing is the plot should be fantastic, unique, and engaging.'')"

definition improvePlot :: "runtime \<Rightarrow> string \<Rightarrow> string async" where
  "improvePlot env plot =
     callOllama env
       (''You are an expert in improving and refining story plots.\<newline>  \<newline>  Improve this plot: ''
        @ plot)"

definition getTitle :: "runtime \<Rightarrow> string \<Rightarrow> string async" where
  "getTitle env plot =
     callOllama env
       (''You are an expert writer.\<newline>  \<newline>  Here is the plot: ''
        @ plot
        @ ''\<newline>  \<newline>  What is the title of this book? Just respond with the title, do nothing else.'')"

subsection \<open>writeFirstChapter\<close>

text \<open>The first prompt: building it throws when the conversion of the plan entry does.\<close>

definition firstChapter_prompt :: "string \<Rightarrow> json option \<Rightarrow> string \<Rightarrow> error + string" where
  "firstChapter_prompt plot firstChapterTitle writingStyle =
     (case js_to_string firstChapterTitle of
        Inl e \<Rightarrow> Inl e
      | Inr firstChapterTitle' \<Rightarrow> Inr (
          ''You are a world-class fantasy writer.\<newline>  \<newline>  Here is the high-level plot to follow: ''
          @ plot
          @ ''\<newline>  \<newline>  Write the first chapter of this novel: `''
          @ firstChapterTitle'
          @ ''`.\<newline>  \<newline>  Make it incredibly unique, engaging, and well-written.\<newline>  \<newline>  Here is a description of the writing style you should use: `''
          @ writingStyle
          @ ''`\<newline>  \<newline>  Include only the chapter text. There is no need to rewrite the chapter name.''))"

definition firstChapter_improvePrompt :: "string \<Rightarrow> string \<Rightarrow> string \<Rightarrow> string" where
  "firstChapter_improvePrompt plot firstDraft writingStyle =
     ''You are a world-class fantasy writer. Your job is to take your student's rough initial draft of the first chapter of their fantasy novel, and rewrite it to be significantly better, with much more detail.\<newline>  \<newline>  Here is the high-level plot you asked your student to follow: ''
     @ plot
     @ ''\<newline>  \<newline>  Here is the first chapter they wrote: ''
     @ firstDraft
     @ ''\<newline>  \<newline>  Now, rewrite the first chapter of this novel, in a way that is far superior to your student's chapter. It should still follow the exact same plot, but it should be far more detailed, much longer, and more engaging. Here is a description of the writing style you should use: `''
     @ writingStyle
     @ ''`''"

definition writeFirstChapter :: "runtime \<Rightarrow> string \<Rightarrow> json option \<Rightarrow> string \<Rightarrow> string async" where
  "writeFirstChapter env plot firstChapterTitle writingStyle tr =
     (case firstChapter_prompt plot firstChapterTitle writingStyle of
        Inl e \<Rightarrow> (Inl e, tr)
      | Inr promptText \<Rightarrow>
          await (callOllama env promptText)
            (\<lambda>firstDraft. callOllama env (firstChapter_improvePrompt plot firstDraft writingStyle))
            tr)"

subsection \<open>writeChapter\<close>

text \<open>\<^verbatim>\<open>JSON.stringify(undefined)\<close> is \<^verbatim>\<open>undefined\<close>.\<close>

definition chapter_prompt :: "string \<Rightarrow> string \<Rightarrow> json option \<Rightarrow> string" where
  "chapter_prompt previousChapters plot chapterTitle =
     ''You are a world-class fantasy writer.\<newline>  \<newline>  Plot: ''
     @ plot
     @ ''\<newline>  Previous Chapters: ''
     @ previousChapters
     @ ''\<newline>  \<newline>  Write the next chapter of this novel, following the plot and taking in the previous chapters as context. Here is the plan for this chapter: ''
     @ (case chapterTitle of None \<Rightarrow> ''undefined'' | Some v \<Rightarrow> json_stringify v)
     @ ''\<newline>  \<newline>  Write it beautifully. Include only the chapter text. There is no need to rewrite the chapter name.''"

text \<open>
  \<^verbatim>\<open>writeChapter\<close> calls itself for as long as the response is short, so it need
  not return: \<^const>\<open>None\<close> is the run that never does. The first line logs
  \<^verbatim>\<open>Object.keys(chapterTitle)[0]\<close>, which throws when the plan entry is
  \<^verbatim>\<open>undefined\<close> or \<^verbatim>\<open>null\<close>.
\<close>

partial_function (option) writeChapter ::
  "runtime \<Rightarrow> string \<Rightarrow> string \<Rightarrow> json option \<Rightarrow> trace \<Rightarrow> ((error + string) \<times> trace) option"
where
  "writeChapter env previousChapters plot chapterTitle tr =
     (case object_keys chapterTitle of
        Inl e \<Rightarrow> Some (Inl e, tr)
      | Inr keys \<Rightarrow>
          (case callOllama env (chapter_prompt previousChapters plot chapterTitle) tr of
             (Inl e, tr') \<Rightarrow> Some (Inl e, tr')
           | (Inr response, tr') \<Rightarrow>
               if length response < 1000
               then writeChapter env previousChapters plot chapterTitle tr'
               else Some (Inr response, tr')))"

subsection \<open>generateStoryline\<close>

definition jsonFormat :: string where
  "jsonFormat =
     ''[{'' @ [CHR 0x22] @ ''Chapter CHAPTER_NUMBER_HERE - CHAPTER_TITLE_GOES_HERE'' @ [CHR 0x22]
     @ '': '' @ [CHR 0x22] @ ''CHAPTER_OVERVIEW_AND_DETAILS_GOES_HERE'' @ [CHR 0x22] @ ''}, ...]''"

definition generateStoryline :: "runtime \<Rightarrow> string \<Rightarrow> int \<Rightarrow> string async" where
  "generateStoryline env plot numChapters =
     await (callOllama env
        (''You are a world-class fantasy writer. Your job is to write a detailed storyline, complete with chapters, for a fantasy novel. Don't be flowery -- you want to get the message across in as few words as possible. But those words should contain lots of information.\<newline>  \<newline>  Write a fantastic storyline with ''
         @ number_to_string env numChapters
         @ '' chapters and high-level details based on this plot: ''
         @ plot
         @ ''.\<newline>  \<newline>  output the response in a json format following this template ''
         @ jsonFormat))
       (\<lambda>initialResponse.
          await (callOllama env
             (''You are a world-class fantasy writer. Your job is to take your student's rough initial draft of the storyline of a fantasy novel, and rewrite it to be significantly better.\<newline>  \<newline>  Here is the draft storyline they wrote: ''
              @ initialResponse
              @ ''\<newline>  \<newline>  Now, rewrite the storyline, in a way that is far superior to your student's version. It should have the same number of chapters, but it should be much improved in as many ways as possible. Remember to do it in this list of dictionaries format ''
              @ jsonFormat))
            (\<lambda>improvedResponse. return (extractJsonFromMarkdown improvedResponse)))"

section \<open>writeFantasyNovel\<close>

record novel_result =
  novel :: string
  title :: string
  chapters :: "string list"
  chapterObjects :: "(string \<times> string) list"

text \<open>Lines 315 to 328: the plot, the title and the storyline text.\<close>

definition storyline_stages :: "runtime \<Rightarrow> string \<Rightarrow> int \<Rightarrow> (string \<times> string) async" where
  "storyline_stages env prompt numChapters =
     await (generatePlots env prompt) (\<lambda>plots.
     await (selectMostEngaging env plots) (\<lambda>bestPlot.
     await (improvePlot env bestPlot) (\<lambda>improvedPlot.
     await (getTitle env improvedPlot) (\<lambda>t.
     await (generateStoryline env improvedPlot numChapters) (\<lambda>storyline.
     return (t, storyline))))))"

text \<open>
  Lines 339 to 341:
  \<^verbatim>\<open>Array.from({ length: numChapters }, (_, i) => ({ [`Chapter ${i+1} - Untitled`]: `This is chapter ${i+1}` }))\<close>.
  A negative length counts as 0; a length of \<open>2\<^sup>3\<^sup>2\<close> or more is no array length,
  and \<^verbatim>\<open>Array.from\<close> throws a \<^verbatim>\<open>RangeError\<close>.
\<close>

definition fallback_plan :: "int \<Rightarrow> error + json" where
  "fallback_plan numChapters =
     (if 2 ^ 32 \<le> numChapters then Inl RangeError
      else Inr (JArray
        (map (\<lambda>i. JObject [(''Chapter '' @ string_of_nat (i + 1) @ '' - Untitled'',
                             JString (''This is chapter '' @ string_of_nat (i + 1)))])
           [0..<nat numChapters])))"

text \<open>
  Lines 331 to 342: \<^verbatim>\<open>chapterTitles\<close>, parsed, or synthesised when the parse throws.
  An error thrown inside the \<^verbatim>\<open>catch\<close> is thrown on.
\<close>

definition parse_plan :: "runtime \<Rightarrow> string \<Rightarrow> int \<Rightarrow> error + json" where
  "parse_plan env storyline numChapters =
     (case json_parse env storyline of
        Some parsed \<Rightarrow> Inr parsed
      | None \<Rightarrow> fallback_plan numChapters)"

definition chapter_block :: "nat \<Rightarrow> string \<Rightarrow> string" where
  "chapter_block n text = ''Chapter '' @ string_of_nat n @ '':\<newline>'' @ text @ ''\<newline>''"

text \<open>
  Lines 355 to 362, the \<^verbatim>\<open>for\<close> loop over the values of \<open>i\<close> that remain; its state
  is \<^verbatim>\<open>novel\<close>, \<^verbatim>\<open>chapters\<close> and \<^verbatim>\<open>chapterObjects\<close>.
\<close>

type_synonym loop_state = "string \<times> string list \<times> (string \<times> string) list"

fun chapter_loop ::
  "runtime \<Rightarrow> string \<Rightarrow> json \<Rightarrow> nat list \<Rightarrow> loop_state \<Rightarrow> trace
     \<Rightarrow> ((error + loop_state) \<times> trace) option"
where
  "chapter_loop env storyline chapterTitles [] st tr = Some (Inr st, tr)"
| "chapter_loop env storyline chapterTitles (i # is) (nov, chs, objs) tr =
     (case property_at chapterTitles i of
        Inl e \<Rightarrow> Some (Inl e, tr)
      | Inr entry \<Rightarrow>
          (case writeChapter env nov storyline entry tr of
             None \<Rightarrow> None
           | Some (Inl e, tr') \<Rightarrow> Some (Inl e, tr')
           | Some (Inr chapter, tr') \<Rightarrow>
               (case object_keys entry of
                  Inl e \<Rightarrow> Some (Inl e, tr')
                | Inr keys \<Rightarrow>
                    chapter_loop env storyline chapterTitles is
                      (nov @ chapter_block (i + 1) chapter,
                       chs @ [chapter],
                       objs @ [(first_key keys, chapter)])
                      tr')))"

text \<open>Lines 344 to 364: the chapters, written along the plan.\<close>

definition write_chapters ::
  "runtime \<Rightarrow> int \<Rightarrow> string \<Rightarrow> string \<Rightarrow> string \<Rightarrow> json \<Rightarrow> trace
     \<Rightarrow> ((error + novel_result) \<times> trace) option"
where
  "write_chapters env numChapters writingStyle t storyline chapterTitles tr =
     (let nov = ''Storyline:\<newline>'' @ storyline @ ''\<newline>\<newline>''
      in case property_at chapterTitles 0 of
           Inl e \<Rightarrow> Some (Inl e, tr)
         | Inr entry \<Rightarrow>
             (case writeFirstChapter env storyline entry writingStyle tr of
                (Inl e, tr') \<Rightarrow> Some (Inl e, tr')
              | (Inr firstChapter, tr') \<Rightarrow>
                  (case object_keys entry of
                     Inl e \<Rightarrow> Some (Inl e, tr')
                   | Inr keys \<Rightarrow>
                       (case chapter_loop env storyline chapterTitles [1..<nat numChapters]
                               (nov @ chapter_block 1 firstChapter,
                                [firstChapter],
                                [(first_key keys, firstChapter)])
                               tr' of
                          None \<Rightarrow> None
                        | Some (Inl e, tr'') \<Rightarrow> Some (Inl e, tr'')
                        | Some (Inr (nov', chs, objs), tr'') \<Rightarrow>
                            Some (Inr \<lparr>novel = nov', title = t, chapters = chs,
                                       chapterObjects = objs\<rparr>, tr'')))))"

text \<open>Lines 330 to 364.\<close>

definition chapter_stages ::
  "runtime \<Rightarrow> int \<Rightarrow> string \<Rightarrow> string \<Rightarrow> string \<Rightarrow> trace
     \<Rightarrow> ((error + novel_result) \<times> trace) option"
where
  "chapter_stages env numChapters writingStyle t storyline tr =
     (case parse_plan env storyline numChapters of
        Inl e \<Rightarrow> Some (Inl e, tr)
      | Inr chapterTitles \<Rightarrow>
          write_chapters env numChapters writingStyle t storyline chapterTitles tr)"

definition writeFantasyNovel ::
  "runtime \<Rightarrow> string \<Rightarrow> int \<Rightarrow> string \<Rightarrow> trace \<Rightarrow> ((error + novel_result) \<times> trace) option"
where
  "writeFantasyNovel env prompt numChapters writingStyle tr =
     (case storyline_stages env prompt numChapters tr of
        (Inl e, tr') \<Rightarrow> Some (Inl e, tr')
      | (Inr (t, storyline), tr') \<Rightarrow>
          chapter_stages env numChapters writingStyle t storyline tr')"

section \<open>The main program\<close>

text \<open>
  What the run leaves behind: the manuscript file (its sanitised name and its
  content), the cover image, the e-book (title, author, chapter records). The file
  system and the two packaging libraries are taken to succeed.
\<close>

datatype artifact =
    ManuscriptFile string string
  | CoverImage
  | Epub string string "(string \<times> string) list"

text \<open>\<^verbatim>\<open>prompt.replace(/[^a-z0-9._ ]/gi, '').trim()\<close>\<close>

definition filename_char :: "char \<Rightarrow> bool" where
  "filename_char c =
     (let n = (of_char c :: nat)
      in (97 \<le> n \<and> n \<le> 122) \<or> (65 \<le> n \<and> n \<le> 90) \<or> (48 \<le> n \<and> n \<le> 57)
         \<or> c = CHR ''.'' \<or> c = CHR ''_'' \<or> c = CHR '' '')"

definition validFilename :: "string \<Rightarrow> string" where
  "validFilename prompt = trim (filter filename_char prompt)"

definition createCoverImage :: "runtime \<Rightarrow> string \<Rightarrow> artifact async" where
  "createCoverImage env plot =
     await (generateCoverPrompt env plot) (\<lambda>coverPrompt. return CoverImage)"

definition records_json :: "(string \<times> string) list \<Rightarrow> json" where
  "records_json objs = JArray (map (\<lambda>(k, text). JObject [(k, JString text)]) objs)"

text \<open>
  The body of the program, from an empty trace: the artifacts produced, the error
  caught and logged by the \<^verbatim>\<open>catch\<close> (if any) and the requests sent.
\<close>

definition main ::
  "runtime \<Rightarrow> string \<Rightarrow> int \<Rightarrow> string \<Rightarrow> (artifact list \<times> error option \<times> trace) option"
where
  "main env prompt numChapters writingStyle =
     (case writeFantasyNovel env prompt numChapters writingStyle [] of
        None \<Rightarrow> None
      | Some (Inl e, tr) \<Rightarrow> Some ([], Some e, tr)
      | Some (Inr r, tr) \<Rightarrow>
          (let written = [ManuscriptFile (validFilename prompt) (novel r)]
           in case createCoverImage env (json_stringify (records_json (chapterObjects r))) tr of
                (Inl e, tr') \<Rightarrow> Some (written, Some e, tr')
              | (Inr coverPath, tr') \<Rightarrow>
                  Some (written @ [coverPath, Epub (title r) ''Ollama Author'' (chapterObjects r)],
                        None, tr')))"

section \<open>What the specification speaks of\<close>

text \<open>
  The manuscript of the specification: the storyline header, then one block per
  chapter, numbered from 1.
\<close>

definition manuscript :: "string \<Rightarrow> string list \<Rightarrow> string" where
  "manuscript storyline chs =
     ''Storyline:\<newline>'' @ storyline @ ''\<newline>\<newline>''
     @ concat (map (\<lambda>(n, text). chapter_block n text) (zip [1..<Suc (length chs)] chs))"

text \<open>
  The plan entry \<^verbatim>\<open>chapterTitles[i]\<close> (\<^const>\<open>None\<close> when there is none), whether
  its keys can be read (it is neither \<^verbatim>\<open>undefined\<close> nor \<^verbatim>\<open>null\<close>), whether a
  value can be converted to a string, the key under which the chapter of an entry is
  recorded, and the request that asks for its chapter, given the chapters written so
  far.
\<close>

definition entry_at :: "json \<Rightarrow> nat \<Rightarrow> json option" where
  "entry_at plan i = (case property_at plan i of Inr entry \<Rightarrow> entry | Inl e \<Rightarrow> None)"

definition entry_ok :: "json \<Rightarrow> nat \<Rightarrow> bool" where
  "entry_ok plan i =
     (case property_at plan i of
        Inr entry \<Rightarrow> (case object_keys entry of Inr keys \<Rightarrow> True | Inl e \<Rightarrow> False)
      | Inl e \<Rightarrow> False)"

definition printable :: "json option \<Rightarrow> bool" where
  "printable v \<longleftrightarrow> \<not> isl (js_to_string v)"

definition plan_key :: "json \<Rightarrow> nat \<Rightarrow> string" where
  "plan_key plan i =
     (case object_keys (entry_at plan i) of Inr keys \<Rightarrow> first_key keys | Inl e \<Rightarrow> ''undefined'')"

definition chapter_request :: "runtime \<Rightarrow> string \<Rightarrow> string list \<Rightarrow> json \<Rightarrow> nat \<Rightarrow> request" where
  "chapter_request env storyline chs plan i =
     ollama_request env (chapter_prompt (manuscript storyline (take i chs)) storyline (entry_at plan i))"

text \<open>The fallback plan of the specification, for a count of chapters.\<close>

definition untitled_plan :: "int \<Rightarrow> json" where
  "untitled_plan numChapters =
     JArray (map (\<lambda>i. JObject [(''Chapter '' @ string_of_nat (i + 1) @ '' - Untitled'',
                                 JString (''This is chapter '' @ string_of_nat (i + 1)))])
               [0..<nat numChapters])"

text \<open>
  How the service answered the \<open>k\<close>-th request of a trace, and the invariant of
  every stage: the requests it sent extend the trace; all of them were answered
  with a text, except that when the stage throws, either its last request is the one
  that failed, with the error thrown, or the error is a \<^verbatim>\<open>TypeError\<close> or a
  \<^verbatim>\<open>RangeError\<close> of the stage's own (only possible when \<open>ok\<close> is false).
\<close>

definition answered :: "runtime \<Rightarrow> trace \<Rightarrow> nat \<Rightarrow> error + string" where
  "answered env tr k = reply_of (service env k (tr ! k))"

definition calls_ok :: "runtime \<Rightarrow> trace \<Rightarrow> nat \<Rightarrow> nat \<Rightarrow> bool" where
  "calls_ok env tr a b \<longleftrightarrow> (\<forall>k. a \<le> k \<and> k < b \<longrightarrow> \<not> isl (answered env tr k))"

definition settles :: "runtime \<Rightarrow> bool \<Rightarrow> trace \<Rightarrow> (error + 'a) \<times> trace \<Rightarrow> bool" where
  "settles env ok tr out \<longleftrightarrow>
     (case out of (res, tr') \<Rightarrow>
        prefix tr tr'
        \<and> (case res of
             Inr a \<Rightarrow> calls_ok env tr' (length tr) (length tr')
           | Inl e \<Rightarrow>
               (length tr < length tr' \<and> calls_ok env tr' (length tr) (length tr' - 1)
                \<and> answered env tr' (length tr' - 1) = Inl e)
               \<or> ((e = TypeError \<or> e = RangeError) \<and> \<not> ok
                   \<and> calls_ok env tr' (length tr) (length tr'))))"

text \<open>The result of a run that returned.\<close>

definition completed :: "((error + 'a) \<times> trace) option \<Rightarrow> 'a option" where
  "completed out = (case out of Some (Inr r, tr) \<Rightarrow> Some r | _ \<Rightarrow> None)"

section \<open>Runtimes to run the pipeline on\<close>

text \<open>
  A runtime whose service answers the \<open>k\<close>-th request with \<open>reply k\<close> and whose
  \<^verbatim>\<open>JSON.parse\<close> is given as a table; a text of a thousand characters; the service
  that always answers with it.
\<close>

definition scripted_runtime :: "(string \<Rightarrow> json option) \<Rightarrow> (nat \<Rightarrow> fetch_result) \<Rightarrow> runtime" where
  "scripted_runtime parse reply =
     \<lparr>language = ''English'', ollamaModel = ''deepseek-r1:7b'',
      service = (\<lambda>k req. reply k), json_parse = parse,
      big_number_to_string = string_of_int\<rparr>"

definition long_text :: string where
  "long_text = replicate 1000 (CHR ''a'')"

definition demo_runtime :: "(string \<Rightarrow> json option) \<Rightarrow> runtime" where
  "demo_runtime parse = scripted_runtime parse (\<lambda>k. Response 200 (Decoded (Some long_text)))"

text \<open>The service that fails at its \<open>n\<close>-th request, and the one whose answers are all short.\<close>

definition failing_runtime :: "nat \<Rightarrow> fetch_result \<Rightarrow> runtime" where
  "failing_runtime n failure =
     scripted_runtime (\<lambda>s. None)
       (\<lambda>k. if k = n then failure else Response 200 (Decoded (Some long_text)))"

definition terse_runtime :: runtime where
  "terse_runtime = scripted_runtime (\<lambda>s. None) (\<lambda>k. Response 200 (Decoded (Some ''Too short.'')))"

text \<open>The service whose first answer is short and that cannot be reached afterwards.\<close>

definition faltering_runtime :: runtime where
  "faltering_runtime =
     scripted_runtime (\<lambda>s. None)
       (\<lambda>k. if k = 0 then Response 200 (Decoded (Some ''Too short.'')) else Unreachable)"

text \<open>The service whose first \<open>n\<close> answers are short.\<close>

definition slow_runtime :: "nat \<Rightarrow> runtime" where
  "slow_runtime n =
     scripted_runtime (\<lambda>s. None)
       (\<lambda>k. Response 200 (Decoded (Some (if k < n then ''Too short.'' else long_text))))"

text \<open>A plan with the same key twice, and a plan whose entry is no object.\<close>

definition twin_plan :: json where
  "twin_plan =
     JArray [JObject [(''Chapter 1 - Dawn'', JString ''The keeper wakes.'')],
             JObject [(''Chapter 1 - Dawn'', JString ''The bottle arrives.'')]]"

definition number_plan :: json where
  "number_plan = JArray [JNumber ''5'']"

text \<open>A plan with one entry only.\<close>

definition short_plan :: json where
  "short_plan = JArray [JObject [(''Chapter 1 - Dawn'', JString ''The keeper wakes.'')]]"

text \<open>A plan whose entry has a property named \<^verbatim>\<open>toString\<close>.\<close>

definition shadow_plan :: json where
  "shadow_plan = JArray [JObject [(''toString'', JString ''The keeper wakes.'')]]"

text \<open>A plan of two entries as the prompts ask for it.\<close>

definition full_plan :: json where
  "full_plan =
     JArray [JObject [(''Chapter 1 - Dawn'', JString ''The keeper wakes.'')],
             JObject [(''Chapter 2 - Dusk'', JString ''The bottle arrives.'')]]"

text \<open>The always answering service, with a storyline that does not parse or parses to these plans.\<close>

definition fallback_runtime :: runtime where
  "fallback_runtime = demo_runtime (\<lambda>s. None)"

definition twin_runtime :: runtime where
  "twin_runtime = demo_runtime (\<lambda>s. Some twin_plan)"

definition number_runtime :: runtime where
  "number_runtime = demo_runtime (\<lambda>s. Some number_plan)"

definition short_plan_runtime :: runtime where
  "short_plan_runtime = demo_runtime (\<lambda>s. Some short_plan)"

definition full_plan_runtime :: runtime where
  "full_plan_runtime = demo_runtime (\<lambda>s. Some full_plan)"

definition shadow_runtime :: runtime where
  "shadow_runtime = demo_runtime (\<lambda>s. Some shadow_plan)"

section \<open>Stripping the reasoning segments\<close>

lemma dropWhile_rev_dropWhile:
  "dropWhile P (rev (dropWhile P (rev (dropWhile P s)))) = rev (dropWhile P (rev (dropWhile P s)))"
proof -
  define t where "t = dropWhile P s"
  define u where "u = dropWhile P (rev t)"
  have t: "t = [] \<or> \<not> P (hd t)"
    unfolding t_def by (metis hd_dropWhile)
  have "rev t = takeWhile P (rev t) @ u"
    unfolding u_def by simp
  then have "rev (rev t) = rev (takeWhile P (rev t) @ u)"
    by simp
  then have eq: "t = rev u @ rev (takeWhile P (rev t))"
    by simp
  have "rev u = [] \<or> \<not> P (hd (rev u))"
  proof (cases "rev u = []")
    case True
    then show ?thesis by simp
  next
    case False
    with eq have "hd t = hd (rev u)" "t \<noteq> []"
      by (metis hd_append2, auto)
    with t show ?thesis by simp
  qed
  then have "dropWhile P (rev u) = rev u"
    by (simp add: dropWhile_eq_self_iff)
  then show ?thesis unfolding u_def t_def .
qed

lemma trim_idem: "trim (trim s) = trim s"
  by (simp add: trim_def dropWhile_rev_dropWhile)

lemma think_close_decomp:
  "think_close s = Some (content, rest) \<Longrightarrow> s = content @ ''</think>'' @ rest"
proof (induction s arbitrary: content)
  case Nil
  then show ?case by simp
next
  case (Cons c cs)
  show ?case
  proof (cases "prefix ''</think>'' (c # cs)")
    case True
    then obtain zs where "c # cs = ''</think>'' @ zs" by (auto simp: prefix_def)
    with True Cons.prems show ?thesis by auto
  next
    case False
    with Cons.prems obtain content' where "think_close cs = Some (content', rest)" "content = c # content'"
      by (auto split: option.splits)
    with Cons.IH show ?thesis by simp
  qed
qed

lemma think_exec_decomp:
  "think_exec s = Some (skipped, content, rest) \<Longrightarrow>
     s = skipped @ ''<think>'' @ content @ ''</think>'' @ rest"
proof (induction s arbitrary: skipped)
  case Nil
  then show ?case by simp
next
  case (Cons c cs)
  show ?case
  proof (cases "if prefix ''<think>'' (c # cs) then think_close (drop 7 (c # cs)) else None")
    case None
    with Cons.prems obtain skipped' where "think_exec cs = Some (skipped', content, rest)" "skipped = c # skipped'"
      by (auto split: option.splits)
    with Cons.IH show ?thesis by simp
  next
    case (Some p)
    with Cons.prems have p: "prefix ''<think>'' (c # cs)" and
      cl: "think_close (drop 7 (c # cs)) = Some (content, rest)" and sk: "skipped = []"
      by (auto split: if_splits)
    from p obtain zs where zs: "c # cs = ''<think>'' @ zs" by (auto simp: prefix_def)
    then have d: "drop 7 (c # cs) = zs" by simp
    have "zs = content @ ''</think>'' @ rest"
      using think_close_decomp [OF cl] unfolding d .
    with zs sk show ?thesis by simp
  qed
qed

lemma think_exec_plain: "CHR ''<'' \<notin> set s \<Longrightarrow> think_exec s = None"
  by (induction s) auto

lemma parse_no_segment: "think_exec s = None \<Longrightarrow> parseOllamaResponse s = trim s"
  by (simp add: parseOllamaResponse_def think_loop.simps [of s])

lemma trim_decomp:
  "g = takeWhile is_space g @ trim g @ rev (takeWhile is_space (rev (dropWhile is_space g)))"
proof -
  define t where "t = dropWhile is_space g"
  have "rev (dropWhile is_space (rev t)) @ rev (takeWhile is_space (rev t))
          = rev (takeWhile is_space (rev t) @ dropWhile is_space (rev t))"
    by (simp only: rev_append)
  also have "\<dots> = t"
    by simp
  finally have "t = rev (dropWhile is_space (rev t)) @ rev (takeWhile is_space (rev t))"
    by simp
  moreover have "g = takeWhile is_space g @ t"
    by (simp add: t_def)
  ultimately show ?thesis
    by (simp add: trim_def t_def)
qed

lemma sublist_trim: "sublist (trim g) g"
  using trim_decomp [of g] sublist_appendI by metis


lemma think_loop_fold:
  "think_loop rest cleaned = fold (\<lambda>fullMatch. replace_first fullMatch []) (segments rest) cleaned"
proof (induction rest cleaned rule: think_loop.induct)
  case (1 rest cleaned)
  show ?case
  proof (cases "think_exec rest")
    case None
    then show ?thesis by (simp add: think_loop.simps [of rest] segments.simps [of rest])
  next
    case (Some p)
    obtain skipped content rest' where p: "p = (skipped, content, rest')" by (cases p)
    from "1.IH" [OF Some p [symmetric] refl] Some p show ?thesis
      by (simp add: think_loop.simps [of rest] segments.simps [of rest])
  qed
qed

lemma replace_first_subseq: "subseq (replace_first pat [] s) s"
proof (induction s)
  case Nil
  then show ?case by simp
next
  case (Cons c cs)
  have "subseq (drop (length pat) (c # cs)) (c # cs)"
    by (rule suffix_imp_subseq) (rule suffix_drop)
  with Cons show ?case by simp
qed

lemma think_loop_subseq: "subseq (think_loop rest cleaned) cleaned"
proof (induction rest cleaned rule: think_loop.induct)
  case (1 rest cleaned)
  show ?case
  proof (cases "think_exec rest")
    case None
    then show ?thesis by (simp add: think_loop.simps [of rest])
  next
    case (Some p)
    obtain skipped content rest' where p: "p = (skipped, content, rest')" by (cases p)
    have "subseq (think_loop rest' (replace_first (''<think>'' @ content @ ''</think>'') [] cleaned))
            (replace_first (''<think>'' @ content @ ''</think>'') [] cleaned)"
      by (rule "1.IH" [OF Some p [symmetric] refl])
    then have "subseq (think_loop rest' (replace_first (''<think>'' @ content @ ''</think>'') [] cleaned))
            cleaned"
      using replace_first_subseq by (rule subseq_order.trans)
    with Some p show ?thesis by (simp add: think_loop.simps [of rest])
  qed
qed

lemma parse_subseq: "subseq (parseOllamaResponse s) s"
proof -
  have "subseq (trim (think_loop s s)) (think_loop s s)"
    by (rule sublist_imp_subseq) (rule sublist_trim)
  then show ?thesis
    unfolding parseOllamaResponse_def using think_loop_subseq by (rule subseq_order.trans)
qed

lemma replace_first_length: "length (replace_first pat [] s) \<le> length s"
  by (induction s) auto

lemma replace_first_shorter:
  "sublist pat s \<Longrightarrow> pat \<noteq> [] \<Longrightarrow> length (replace_first pat [] s) < length s"
proof (induction s)
  case Nil
  then show ?case by simp
next
  case (Cons c cs)
  show ?case
  proof (cases "prefix pat (c # cs)")
    case True
    with Cons.prems show ?thesis by (cases pat) auto
  next
    case False
    with Cons.prems have "sublist pat cs" by (simp add: sublist_Cons_right)
    with Cons.IH Cons.prems False show ?thesis by simp
  qed
qed

lemma think_loop_length: "length (think_loop rest cleaned) \<le> length cleaned"
proof (induction rest cleaned rule: think_loop.induct)
  case (1 rest cleaned)
  show ?case
  proof (cases "think_exec rest")
    case None
    then show ?thesis by (simp add: think_loop.simps [of rest])
  next
    case (Some p)
    obtain skipped content rest' where p: "p = (skipped, content, rest')" by (cases p)
    have "length (think_loop rest' (replace_first (''<think>'' @ content @ ''</think>'') [] cleaned))
            \<le> length (replace_first (''<think>'' @ content @ ''</think>'') [] cleaned)"
      by (rule "1.IH" [OF Some p [symmetric] refl])
    also have "\<dots> \<le> length cleaned" by (rule replace_first_length)
    finally show ?thesis using Some p by (simp add: think_loop.simps [of rest])
  qed
qed

lemma trim_length: "length (trim s) \<le> length s"
proof -
  have "length (dropWhile is_space (rev (dropWhile is_space s))) \<le> length (rev (dropWhile is_space s))"
    by (rule length_dropWhile_le)
  also have "\<dots> \<le> length s" by (simp add: length_dropWhile_le)
  finally show ?thesis by (simp add: trim_def)
qed

lemma parse_shorter:
  assumes "think_exec s \<noteq> None"
  shows "length (parseOllamaResponse s) < length s"
proof -
  from assms obtain skipped content rest where ex: "think_exec s = Some (skipped, content, rest)"
    by auto
  let ?m = "''<think>'' @ content @ ''</think>''"
  from think_exec_decomp [OF ex] have "s = skipped @ ?m @ rest" by simp
  then have "sublist ?m s" unfolding sublist_def by blast
  then have short: "length (replace_first ?m [] s) < length s"
    by (rule replace_first_shorter) simp
  have "length (parseOllamaResponse s) \<le> length (think_loop s s)"
    unfolding parseOllamaResponse_def by (rule trim_length)
  also have "think_loop s s = think_loop rest (replace_first ?m [] s)"
    using ex by (simp add: think_loop.simps [of s])
  also have "length \<dots> \<le> length (replace_first ?m [] s)" by (rule think_loop_length)
  finally show ?thesis using short by simp
qed

lemma parse_idem_iff:
  "parseOllamaResponse (parseOllamaResponse s) = parseOllamaResponse s
     \<longleftrightarrow> think_exec (parseOllamaResponse s) = None"
proof
  assume eq: "parseOllamaResponse (parseOllamaResponse s) = parseOllamaResponse s"
  show "think_exec (parseOllamaResponse s) = None"
  proof (rule ccontr)
    assume "think_exec (parseOllamaResponse s) \<noteq> None"
    from parse_shorter [OF this] eq show False by simp
  qed
next
  assume "think_exec (parseOllamaResponse s) = None"
  from parse_no_segment [OF this] show "parseOllamaResponse (parseOllamaResponse s) = parseOllamaResponse s"
    by (simp add: parseOllamaResponse_def trim_idem)
qed


lemma think_close_found: "think_close (content @ ''</think>'' @ rest) \<noteq> None"
proof (induction content)
  case Nil
  then show ?case by simp
next
  case (Cons c cs)
  then show ?case by (auto split: option.splits)
qed

lemma segment_found: "think_exec (pre @ ''<think>'' @ content @ ''</think>'' @ post) \<noteq> None"
proof (induction pre)
  case Nil
  from think_close_found [of content post] show ?case
    by (auto split: option.splits)
next
  case (Cons c cs)
  then show ?case by (auto split: option.splits if_splits)
qed

lemma sublist_segment:
  "sublist (''<think>'' @ content @ ''</think>'') s \<Longrightarrow> think_exec s \<noteq> None"
proof -
  assume "sublist (''<think>'' @ content @ ''</think>'') s"
  then obtain pre post where "s = pre @ (''<think>'' @ content @ ''</think>'') @ post"
    unfolding sublist_def by blast
  then have "s = pre @ ''<think>'' @ content @ ''</think>'' @ post" by simp
  then show ?thesis by (simp only: segment_found not_False_eq_True)
qed

lemma no_segment_sublist: "think_exec s = None \<Longrightarrow> sublist u s \<Longrightarrow> think_exec u = None"
proof (rule ccontr)
  assume s: "think_exec s = None" and u: "sublist u s" and "think_exec u \<noteq> None"
  then obtain skipped content rest where "think_exec u = Some (skipped, content, rest)" by auto
  from think_exec_decomp [OF this] have "u = skipped @ (''<think>'' @ content @ ''</think>'') @ rest"
    by simp
  then have "sublist (''<think>'' @ content @ ''</think>'') u" unfolding sublist_def by blast
  with u have "sublist (''<think>'' @ content @ ''</think>'') s"
    by (blast intro: sublist_order.order_trans)
  from sublist_segment [OF this] s show False by simp
qed

lemma think_close_first:
  "think_close u = Some (content, rest) \<Longrightarrow> k < length content \<Longrightarrow> \<not> prefix ''</think>'' (drop k u)"
proof (induction u arbitrary: content k)
  case Nil
  then show ?case by simp
next
  case (Cons c cs)
  show ?case
  proof (cases "prefix ''</think>'' (c # cs)")
    case True
    with Cons.prems show ?thesis by auto
  next
    case False
    with Cons.prems obtain content' where cl: "think_close cs = Some (content', rest)"
      and c: "content = c # content'"
      by (auto split: option.splits)
    show ?thesis
    proof (cases k)
      case 0
      with False show ?thesis by simp
    next
      case (Suc j)
      with Cons.prems c have "j < length content'" by simp
      from Cons.IH [OF cl this] Suc show ?thesis by simp
    qed
  qed
qed

lemma think_exec_close:
  "think_exec s = Some (skipped, content, rest) \<Longrightarrow>
     think_close (content @ ''</think>'' @ rest) = Some (content, rest)"
proof (induction s arbitrary: skipped)
  case Nil
  then show ?case by simp
next
  case (Cons c cs)
  show ?case
  proof (cases "if prefix ''<think>'' (c # cs) then think_close (drop 7 (c # cs)) else None")
    case None
    with Cons.prems obtain skipped' where "think_exec cs = Some (skipped', content, rest)"
      by (auto split: option.splits)
    then show ?thesis by (rule Cons.IH)
  next
    case (Some p)
    with Cons.prems have cl: "think_close (drop 7 (c # cs)) = Some (content, rest)"
      by (auto split: if_splits)
    from think_close_decomp [OF cl] cl show ?thesis by simp
  qed
qed

lemma prefix_nth: "prefix xs (drop n z) \<Longrightarrow> i < length xs \<Longrightarrow> z ! (n + i) = xs ! i"
proof -
  assume p: "prefix xs (drop n z)" and i: "i < length xs"
  then obtain w where w: "drop n z = xs @ w" by (auto simp: prefix_def)
  from i w have "n \<le> length z" by (cases "n \<le> length z") auto
  then have "z ! (n + i) = drop n z ! i" by (simp add: nth_drop)
  with w i show ?thesis by (simp add: nth_append)
qed

lemma prefix_append_drop:
  "prefix (a @ b) (drop q z) \<Longrightarrow> prefix a (drop q z) \<and> prefix b (drop (q + length a) z)"
proof -
  assume "prefix (a @ b) (drop q z)"
  then obtain w where w: "drop q z = a @ b @ w" by (auto simp: prefix_def)
  have "drop (q + length a) z = drop (length a) (drop q z)" by (simp add: add.commute)
  with w show ?thesis by simp
qed

lemma close_open_clash:
  assumes cl: "prefix ''</think>'' (drop e z)" and op: "prefix ''<think>'' (drop p z)"
    and "e < p + 7" "p < e + 8"
  shows False
proof (cases "e < p")
  case True
  define d where "d = p - e"
  with True assms have d: "d = 1 \<or> d = 2 \<or> d = 3 \<or> d = 4 \<or> d = 5 \<or> d = 6 \<or> d = 7"
    by arith
  from True have p: "p = e + d" by (simp add: d_def)
  from prefix_nth [OF op, of 0] have "z ! p = CHR ''<''" by simp
  moreover from d have "z ! (e + d) = ''</think>'' ! d"
    by (intro prefix_nth [OF cl]) auto
  ultimately have "''</think>'' ! d = CHR ''<''" using p by simp
  with d show False by (elim disjE) simp_all
next
  case False
  define d where "d = e - p"
  with False assms have d: "d = 0 \<or> d = 1 \<or> d = 2 \<or> d = 3 \<or> d = 4 \<or> d = 5 \<or> d = 6"
    by arith
  from False have e: "e = p + d" by (simp add: d_def)
  show False
  proof (cases "d = 0")
    case True
    from prefix_nth [OF op, of 1] have "z ! (p + 1) = CHR ''t''" by simp
    moreover from prefix_nth [OF cl, of 1] have "z ! (e + 1) = CHR ''/''" by simp
    ultimately show False using e True by simp
  next
    case nz: False
    from prefix_nth [OF cl, of 0] have "z ! e = CHR ''<''" by simp
    moreover from d have "z ! (p + d) = ''<think>'' ! d"
      by (intro prefix_nth [OF op]) auto
    ultimately have "''<think>'' ! d = CHR ''<''" using e by simp
    with d nz show False by (elim disjE) simp_all
  qed
qed

lemma replace_first_at:
  "\<forall>q<length x. \<not> prefix m (drop q (x @ m @ y)) \<Longrightarrow> replace_first m [] (x @ m @ y) = x @ y"
proof (induction x)
  case Nil
  show ?case
  proof (cases "m @ y")
    case Nil
    then show ?thesis by simp
  next
    case (Cons a list)
    have "prefix m (m @ y)" by simp
    then have "replace_first m [] (m @ y) = drop (length m) (m @ y)"
      unfolding Cons by simp
    then show ?thesis by simp
  qed
next
  case (Cons c cs)
  from Cons.prems have "\<not> prefix m ((c # cs) @ m @ y)" by force
  moreover have "\<forall>q<length cs. \<not> prefix m (drop q (cs @ m @ y))"
  proof (intro allI impI)
    fix q assume "q < length cs"
    then have "Suc q < length (c # cs)" by simp
    with Cons.prems have "\<not> prefix m (drop (Suc q) ((c # cs) @ m @ y))" by blast
    then show "\<not> prefix m (drop q (cs @ m @ y))" by simp
  qed
  ultimately show ?case using Cons.IH by simp
qed


lemma segment_first_occurrence:
  assumes ex: "think_exec s = Some (skipped, content, rest)"
    and none: "\<not> sublist (''<think>'' @ content @ ''</think>'') x"
    and q: "q < length x"
  shows "\<not> prefix (''<think>'' @ content @ ''</think>'')
            (drop q (x @ (''<think>'' @ content @ ''</think>'') @ rest))"
proof
  define m where "m = ''<think>'' @ content @ ''</think>''"
  define z where "z = x @ m @ rest"
  define e where "e = q + 7 + length content"
  assume "prefix (''<think>'' @ content @ ''</think>'')
            (drop q (x @ (''<think>'' @ content @ ''</think>'') @ rest))"
  then have pm: "prefix m (drop q z)"
    unfolding m_def z_def .
  then have "prefix (''<think>'' @ (content @ ''</think>'')) (drop q z)"
    unfolding m_def .
  from prefix_append_drop [OF this]
  have "prefix (content @ ''</think>'') (drop (q + length ''<think>'') z)"
    by (rule conjunct2)
  from prefix_append_drop [OF this]
  have "prefix ''</think>'' (drop (q + length ''<think>'' + length content) z)"
    by (rule conjunct2)
  moreover have "q + length ''<think>'' + length content = e"
    by (simp add: e_def)
  ultimately have cl: "prefix ''</think>'' (drop e z)"
    by (simp only:)
  have dz: "drop (length x) z = ''<think>'' @ content @ ''</think>'' @ rest"
    by (simp add: z_def m_def)
  then have op: "prefix ''<think>'' (drop (length x) z)"
    by simp
  have len: "length m = length content + 15"
    by (simp add: m_def)
  consider "e + 8 \<le> length x" | "length x < e + 8" "e < length x + 7" | "length x + 7 \<le> e"
    by arith
  then show False
  proof cases
    case 1
    have "drop q z = drop q x @ m @ rest"
      using q by (simp add: z_def)
    then have "prefix (drop q x) (drop q z)"
      by simp
    moreover from 1 q have "length m \<le> length (drop q x)"
      by (simp add: e_def len)
    ultimately have "prefix m (drop q x)"
      using pm by (blast intro: prefix_length_prefix)
    then obtain w where "drop q x = m @ w"
      by (auto simp: prefix_def)
    then have "x = take q x @ m @ w"
      using append_take_drop_id [of q x] by simp
    then have "sublist m x"
      unfolding sublist_def by blast
    with none show False
      unfolding m_def by simp
  next
    case 2
    with close_open_clash [OF cl op] show False by simp
  next
    case 3
    define k where "k = e - (length x + 7)"
    from 3 q have k: "k < length content" and e: "e = (length x + 7) + k"
      by (simp_all add: k_def e_def)
    have "drop (length x + 7) z = drop 7 (drop (length x) z)"
      by (simp add: add.commute)
    also have "\<dots> = content @ ''</think>'' @ rest"
      unfolding dz by simp
    finally have d7: "drop (length x + 7) z = content @ ''</think>'' @ rest" .
    have "drop e z = drop k (drop (length x + 7) z)"
      unfolding e by (simp add: add.commute)
    with cl have "prefix ''</think>'' (drop k (content @ ''</think>'' @ rest))"
      unfolding d7 by simp
    with think_close_first [OF think_exec_close [OF ex] k] show False by simp
  qed
qed

lemma think_loop_in_place:
  "first_occurrences acc rest \<Longrightarrow> think_loop rest (acc @ rest) = acc @ strip_segments rest"
proof (induction rest arbitrary: acc rule: strip_segments.induct)
  case (1 s)
  show ?case
  proof (cases "think_exec s")
    case None
    then show ?thesis by (simp add: think_loop.simps [of s] strip_segments.simps [of s])
  next
    case (Some p)
    obtain skipped content rest where p: "p = (skipped, content, rest)" by (cases p)
    let ?m = "''<think>'' @ content @ ''</think>''"
    from Some p have ex: "think_exec s = Some (skipped, content, rest)"
      by simp
    then have "s = skipped @ ''<think>'' @ content @ ''</think>'' @ rest"
      by (rule think_exec_decomp)
    then have s: "acc @ s = (acc @ skipped) @ ?m @ rest"
      by simp
    from ex have st: "strip_segments s = skipped @ strip_segments rest"
      by (simp add: strip_segments.simps [of s])
    from "1.prems" ex have none: "\<not> sublist ?m (acc @ skipped)"
      and later: "first_occurrences (acc @ skipped) rest"
      by (simp_all add: first_occurrences.simps [of acc s])
    have "\<forall>q<length (acc @ skipped). \<not> prefix ?m (drop q ((acc @ skipped) @ ?m @ rest))"
      using segment_first_occurrence [OF ex none] by blast
    then have "replace_first ?m [] ((acc @ skipped) @ ?m @ rest) = (acc @ skipped) @ rest"
      by (rule replace_first_at)
    then have "replace_first ?m [] (acc @ s) = (acc @ skipped) @ rest"
      unfolding s .
    moreover have "think_loop rest ((acc @ skipped) @ rest) = (acc @ skipped) @ strip_segments rest"
      using "1.IH" [OF Some _ _ later] p by simp
    ultimately show ?thesis using ex st
      by (simp add: think_loop.simps [of s])
  qed
qed

lemma no_segment_first_occurrences:
  "think_exec (acc @ strip_segments rest) = None \<Longrightarrow> first_occurrences acc rest"
proof (induction rest arbitrary: acc rule: strip_segments.induct)
  case (1 s)
  show ?case
  proof (cases "think_exec s")
    case None
    then show ?thesis by (simp add: first_occurrences.simps [of acc s])
  next
    case (Some p)
    obtain skipped content rest where p: "p = (skipped, content, rest)" by (cases p)
    let ?m = "''<think>'' @ content @ ''</think>''"
    from Some p have ex: "think_exec s = Some (skipped, content, rest)"
      by simp
    from ex have st: "strip_segments s = skipped @ strip_segments rest"
      by (simp add: strip_segments.simps [of s])
    with "1.prems" have none: "think_exec ((acc @ skipped) @ strip_segments rest) = None"
      by simp
    have "\<not> sublist ?m (acc @ skipped)"
    proof
      assume "sublist ?m (acc @ skipped)"
      then obtain ps ss where "acc @ skipped = ps @ ?m @ ss"
        unfolding sublist_def by blast
      then have "(acc @ skipped) @ strip_segments rest = ps @ ?m @ (ss @ strip_segments rest)"
        by simp
      then have "sublist ?m ((acc @ skipped) @ strip_segments rest)"
        unfolding sublist_def by blast
      from sublist_segment [OF this] none show False by simp
    qed
    moreover have "first_occurrences (acc @ skipped) rest"
      using "1.IH" [OF Some _ _ none] p by simp
    ultimately show ?thesis using ex
      by (simp add: first_occurrences.simps [of acc s])
  qed
qed

lemma parse_in_place:
  assumes "first_occurrences [] s"
  shows "parseOllamaResponse s = trim (strip_segments s)"
  using think_loop_in_place [of "[]" s] assms by (simp add: parseOllamaResponse_def)

text \<open>
  Claim C6, as amended. On every input, \<^verbatim>\<open>parseOllamaResponse\<close> removes, for each
  segment found by the scan and in that order, the first occurrence of the segment's
  text from what is left of the response, and trims the result; what remains keeps
  the order it has in the input. An input in which the scan finds no
  \<^verbatim>\<open><think>...</think>\<close> segment is returned unchanged but for the trim. Whenever
  no segment's text occurs earlier in what is left of the response, the output is
  the input with every segment removed where it stands, trimmed; this is so in
  particular when the text left by removing the segments where they stand holds no
  segment, and then stripping the output again changes nothing. Stripping is
  idempotent at an input exactly when the output holds no segment.
\<close>

theorem strip_thinking:
  "parseOllamaResponse s
     = trim (fold (\<lambda>fullMatch cleanedResponse. replace_first fullMatch [] cleanedResponse)
               (segments s) s)
   \<and> subseq (parseOllamaResponse s) s
   \<and> (think_exec s = None \<longrightarrow> parseOllamaResponse s = trim s)
   \<and> (first_occurrences [] s \<longrightarrow> parseOllamaResponse s = trim (strip_segments s))
   \<and> (think_exec (strip_segments s) = None \<longrightarrow>
        first_occurrences [] s
        \<and> parseOllamaResponse (parseOllamaResponse s) = parseOllamaResponse s)
   \<and> (parseOllamaResponse (parseOllamaResponse s) = parseOllamaResponse s
        \<longleftrightarrow> think_exec (parseOllamaResponse s) = None)"
proof (intro conjI impI)
  show "parseOllamaResponse s
     = trim (fold (\<lambda>fullMatch cleanedResponse. replace_first fullMatch [] cleanedResponse)
               (segments s) s)"
    by (simp add: parseOllamaResponse_def think_loop_fold)
  show "subseq (parseOllamaResponse s) s"
    by (rule parse_subseq)
  show "parseOllamaResponse s = trim s" if "think_exec s = None"
    using that by (rule parse_no_segment)
  show iff: "parseOllamaResponse (parseOllamaResponse s) = parseOllamaResponse s
        \<longleftrightarrow> think_exec (parseOllamaResponse s) = None"
    by (rule parse_idem_iff)
  show "parseOllamaResponse s = trim (strip_segments s)" if "first_occurrences [] s"
    using that by (rule parse_in_place)
  assume none: "think_exec (strip_segments s) = None"
  then show first: "first_occurrences [] s"
    using no_segment_first_occurrences [of "[]" s] by simp
  then have eq: "parseOllamaResponse s = trim (strip_segments s)"
    by (rule parse_in_place)
  from none sublist_trim have "think_exec (trim (strip_segments s)) = None"
    by (rule no_segment_sublist)
  with iff eq show "parseOllamaResponse (parseOllamaResponse s) = parseOllamaResponse s"
    by simp
qed

theorem strip_thinking_witness:
  "think_exec '' no reasoning here '' = None
   \<and> parseOllamaResponse '' no reasoning here '' = ''no reasoning here''
   \<and> think_exec (strip_segments '' <think>a</think> x < y <think>b</think>z <think> '') = None
   \<and> segments '' <think>a</think> x < y <think>b</think>z <think> ''
       = [''<think>a</think>'', ''<think>b</think>'']
   \<and> parseOllamaResponse '' <think>a</think> x < y <think>b</think>z <think> '' = ''x < y z <think>''
   \<and> subseq ''x < y z <think>'' '' <think>a</think> x < y <think>b</think>z <think> ''
   \<and> think_exec (parseOllamaResponse '' <think>a</think> x < y <think>b</think>z <think> '') = None
   \<and> parseOllamaResponse (parseOllamaResponse '' <think>a</think> x < y <think>b</think>z <think> '')
       = parseOllamaResponse '' <think>a</think> x < y <think>b</think>z <think> ''
   \<and> first_occurrences [] ''<th<think>a</think>ink>b</think>''
   \<and> think_exec (strip_segments ''<th<think>a</think>ink>b</think>'') \<noteq> None
   \<and> parseOllamaResponse ''<th<think>a</think>ink>b</think>''
       = trim (strip_segments ''<th<think>a</think>ink>b</think>'')
   \<and> parseOllamaResponse ''<th<think>a</think>ink>b</think>'' = ''<think>b</think>''
   \<and> parseOllamaResponse (parseOllamaResponse ''<th<think>a</think>ink>b</think>'')
       \<noteq> parseOllamaResponse ''<th<think>a</think>ink>b</think>''"
  using strip_thinking [of "'' no reasoning here ''"]
    strip_thinking [of "'' <think>a</think> x < y <think>b</think>z <think> ''"]
    strip_thinking [of "''<th<think>a</think>ink>b</think>''"]
  by (simp add: strip_segments.simps segments.simps think_loop.simps first_occurrences.simps
        parseOllamaResponse_def trim_def is_space_def sublist_code)

text \<open>
  The claim as stated fails: removing a segment that stands inside a broken tag
  joins the two halves of the tag into a new segment. Its text is that of a later
  segment, so the removal of the later segment takes the new one instead: the
  output is not the input with the segments removed where they stand, it still
  holds a segment, and a second pass removes it.
\<close>

theorem strip_thinking_misplaced:
  "parseOllamaResponse ''<thi<think>A</think>nk>B</think> x <think>B</think>''
     = ''x <think>B</think>''
   \<and> trim (strip_segments ''<thi<think>A</think>nk>B</think> x <think>B</think>'')
     = ''<think>B</think> x''
   \<and> parseOllamaResponse (parseOllamaResponse ''<thi<think>A</think>nk>B</think> x <think>B</think>'')
     = ''x''"
  by (simp add: strip_segments.simps think_loop.simps parseOllamaResponse_def trim_def is_space_def)

section \<open>Extracting the fenced JSON\<close>

lemma fence_close_prefix: "fence_close s = Some g \<Longrightarrow> prefix g s"
  by (induction s arbitrary: g) (auto split: if_splits option.splits)

lemma backquote_no_space [simp]: "\<not> is_space (CHR 0x60)"
  by (simp add: is_space_def)

lemma fence_close_no_fence: "fence_close s = Some g \<Longrightarrow> \<not> sublist ''```'' g"
proof (induction s arbitrary: g)
  case Nil
  then show ?case by simp
next
  case (Cons c cs)
  show ?case
  proof (cases "prefix ''```'' (dropWhile is_space (c # cs))")
    case True
    with Cons.prems show ?thesis by simp
  next
    case False
    with Cons.prems obtain g' where g': "fence_close cs = Some g'" "g = c # g'"
      by (auto split: option.splits)
    have "\<not> prefix ''```'' (c # g')"
    proof
      assume p: "prefix ''```'' (c # g')"
      then have c: "c = CHR 0x60" by simp
      from g'(1) have "prefix (c # g') (c # cs)"
        by (simp add: fence_close_prefix)
      with p have "prefix ''```'' (c # cs)"
        by (rule prefix_order.trans)
      with False c show False by simp
    qed
    moreover from Cons.IH [OF g'(1)] have "\<not> sublist ''```'' g'" .
    ultimately show ?thesis
      using g'(2) by (simp add: sublist_Cons_right)
  qed
qed

lemma json_match_no_fence: "json_match s = Some g \<Longrightarrow> \<not> sublist ''```'' g"
  by (induction s) (auto split: if_splits option.splits dest: fence_close_no_fence)

lemma json_match_None: "\<not> sublist ''```json'' s \<Longrightarrow> json_match s = None"
  by (induction s) (auto simp: sublist_Cons_right)

lemma extract_idem: "extractJsonFromMarkdown (extractJsonFromMarkdown s) = extractJsonFromMarkdown s"
proof (cases "json_match s")
  case None
  then show ?thesis by (simp add: extractJsonFromMarkdown_def)
next
  case (Some g)
  show ?thesis
  proof (cases "g = []")
    case True
    with Some show ?thesis by (simp add: extractJsonFromMarkdown_def)
  next
    case False
    with Some have e: "extractJsonFromMarkdown s = trim g"
      by (simp add: extractJsonFromMarkdown_def)
    from Some have "\<not> sublist ''```'' g" by (rule json_match_no_fence)
    moreover have "sublist ''```'' ''```json''"
      by (simp add: sublist_code)
    ultimately have "\<not> sublist ''```json'' (trim g)"
      using sublist_trim [of g] sublist_order.order.trans by blast
    then have "json_match (trim g) = None" by (rule json_match_None)
    with e show ?thesis by (simp add: extractJsonFromMarkdown_def)
  qed
qed


lemma json_match_skip:
  "\<not> sublist ''```json'' (pre @ ''```jso'') \<Longrightarrow>
     json_match (pre @ ''```json'' @ rest) = json_match (''```json'' @ rest)"
proof (induction pre)
  case Nil
  then show ?case by simp
next
  case (Cons c pre)
  have np: "\<not> prefix ''```json'' ((c # pre) @ ''```json'' @ rest)"
  proof
    assume p: "prefix ''```json'' ((c # pre) @ ''```json'' @ rest)"
    have "prefix ((c # pre) @ ''```jso'') ((c # pre) @ ''```json'' @ rest)"
      by simp
    with p have "prefix ''```json'' ((c # pre) @ ''```jso'')"
      by (rule prefix_length_prefix) simp
    then have "sublist ''```json'' ((c # pre) @ ''```jso'')"
      by (rule prefix_imp_sublist)
    with Cons.prems show False by simp
  qed
  have "json_match ((c # pre) @ ''```json'' @ rest) = json_match (pre @ ''```json'' @ rest)"
    using np by (simp only: json_match.simps append_Cons if_False option.case)
  moreover from Cons.prems have "\<not> sublist ''```json'' (pre @ ''```jso'')"
    by (simp add: sublist_Cons_right)
  ultimately show ?case
    using Cons.IH by simp
qed

lemma fence_close_hit:
  "(\<And>x. x \<noteq> [] \<Longrightarrow> suffix x core \<Longrightarrow> \<not> prefix ''```'' (dropWhile is_space (x @ rest))) \<Longrightarrow>
   prefix ''```'' (dropWhile is_space rest) \<Longrightarrow>
   fence_close (core @ rest) = Some core"
proof (induction core)
  case Nil
  then show ?case by (cases rest) auto
next
  case (Cons c core)
  have "\<not> prefix ''```'' (dropWhile is_space ((c # core) @ rest))"
    by (rule Cons.prems(1)) simp_all
  moreover have "fence_close (core @ rest) = Some core"
  proof (rule Cons.IH)
    show "\<not> prefix ''```'' (dropWhile is_space (x @ rest))" if "x \<noteq> []" "suffix x core" for x
      using that by (intro Cons.prems(1)) (simp_all add: suffix_Cons)
    show "prefix ''```'' (dropWhile is_space rest)" by (rule Cons.prems(2))
  qed
  ultimately show ?case by simp
qed


lemma trim_ends:
  assumes "trim g \<noteq> []"
  shows "\<not> is_space (hd (trim g))" "\<not> is_space (last (trim g))"
proof -
  define t where "t = dropWhile is_space g"
  define u where "u = dropWhile is_space (rev t)"
  have tr: "trim g = rev u"
    by (simp add: trim_def t_def u_def)
  with assms have u: "u \<noteq> []" by simp
  then have "\<not> is_space (hd u)"
    unfolding u_def by (rule hd_dropWhile)
  with u show "\<not> is_space (last (trim g))"
    by (simp add: tr last_rev)
  show "\<not> is_space (hd (trim g))"
  proof
    assume sp: "is_space (hd (trim g))"
    from assms have "dropWhile is_space (trim g) = dropWhile is_space (tl (trim g))"
      using sp by (cases "trim g") auto
    then have "length (dropWhile is_space (trim g)) < length (trim g)"
      using assms by (metis length_dropWhile_le length_tl diff_less le_less_trans length_greater_0_conv
          less_numeral_extra(1) order.strict_trans1)
    moreover have "length (trim (trim g)) \<le> length (dropWhile is_space (trim g))"
      by (simp add: trim_def) (metis length_dropWhile_le length_rev)
    ultimately show False by (simp add: trim_idem)
  qed
qed

lemma extract_one_fence:
  assumes fence1: "\<not> sublist ''```json'' (pre @ ''```jso'')"
    and fence2: "\<not> sublist ''```'' (mid @ ''``'')"
    and interior: "trim mid \<noteq> []"
  shows "extractJsonFromMarkdown (pre @ ''```json'' @ mid @ ''```'' @ post) = trim mid"
proof -
  define a where "a = takeWhile is_space mid"
  define b where "b = rev (takeWhile is_space (rev (dropWhile is_space mid)))"
  define core where "core = trim mid"
  have mid: "mid = a @ core @ b"
    unfolding a_def b_def core_def by (rule trim_decomp)
  have a: "\<forall>x\<in>set a. is_space x"
    unfolding a_def by (auto dest: set_takeWhileD)
  have b: "\<forall>x\<in>set b. is_space x"
    unfolding b_def by (auto dest: set_takeWhileD)
  from interior have core: "core \<noteq> []" "\<not> is_space (hd core)" "\<not> is_space (last core)"
    unfolding core_def by (simp_all add: trim_ends)
  let ?rest = "b @ ''```'' @ post"
  have "dropWhile is_space (mid @ ''```'' @ post) = dropWhile is_space (core @ ?rest)"
    using a by (simp add: mid dropWhile_append2)
  also have "\<dots> = core @ ?rest"
    using core by (cases core) auto
  finally have drop: "dropWhile is_space (mid @ ''```'' @ post) = core @ ?rest" .
  have rest: "dropWhile is_space ?rest = ''```'' @ post"
    using b by (simp add: dropWhile_append2)
  have hit: "fence_close (core @ ?rest) = Some core"
  proof (rule fence_close_hit)
    show "prefix ''```'' (dropWhile is_space ?rest)"
      unfolding rest by simp
    fix x assume x: "x \<noteq> []" "suffix x core"
    then have "last x = last core"
      by (auto simp: suffix_def)
    with core x have "\<exists>c\<in>set x. \<not> is_space c"
      by (metis last_in_set)
    then have dx: "dropWhile is_space (x @ ?rest) = dropWhile is_space x @ ?rest"
      by (metis dropWhile_append1)
    define y where "y = dropWhile is_space x"
    from \<open>\<exists>c\<in>set x. \<not> is_space c\<close> have y: "y \<noteq> []"
      unfolding y_def by (simp add: dropWhile_eq_Nil_conv)
    have "suffix y x" unfolding y_def by (rule suffix_dropWhile)
    from this x(2) have "suffix y core" by (rule suffix_order.trans)
    then obtain w where w: "core = w @ y" by (auto simp: suffix_def)
    show "\<not> prefix ''```'' (dropWhile is_space (x @ ?rest))"
    proof
      assume "prefix ''```'' (dropWhile is_space (x @ ?rest))"
      then have p: "prefix ''```'' (y @ b @ ''```'' @ post)"
        unfolding dx y_def .
      have "prefix (y @ b @ ''``'') (y @ b @ ''```'' @ post)"
        by simp
      with p have "prefix ''```'' (y @ b @ ''``'')"
        by (rule prefix_length_prefix) (use y in \<open>cases y; simp\<close>)
      then have "sublist ''```'' (y @ b @ ''``'')"
        by (rule prefix_imp_sublist)
      then have "sublist ''```'' ((a @ w) @ (y @ b @ ''``''))"
        by (simp only: sublist_append) simp
      with fence2 show False by (simp add: mid w)
    qed
  qed
  have "json_match (pre @ ''```json'' @ mid @ ''```'' @ post) = json_match (''```json'' @ mid @ ''```'' @ post)"
    using fence1 by (rule json_match_skip)
  also have "\<dots> = Some core"
    using hit drop by simp
  finally show ?thesis
    using core(1) by (simp add: extractJsonFromMarkdown_def core_def trim_idem)
qed

lemma trim_empty: "trim mid = [] \<Longrightarrow> \<forall>x\<in>set mid. is_space x"
proof -
  assume e: "trim mid = []"
  have "mid = takeWhile is_space mid @ trim mid @ rev (takeWhile is_space (rev (dropWhile is_space mid)))"
    by (rule trim_decomp)
  with e have "set mid = set (takeWhile is_space mid)
      \<union> set (takeWhile is_space (rev (dropWhile is_space mid)))"
    by (metis append_Nil set_append set_rev)
  then show ?thesis by (auto dest: set_takeWhileD)
qed

lemma extract_empty_fence:
  assumes fence1: "\<not> sublist ''```json'' (pre @ ''```jso'')"
    and interior: "trim mid = []"
  shows "extractJsonFromMarkdown (pre @ ''```json'' @ mid @ ''```'' @ post)
           = pre @ ''```json'' @ mid @ ''```'' @ post"
proof -
  from interior have "\<forall>x\<in>set mid. is_space x" by (rule trim_empty)
  then have drop: "dropWhile is_space (mid @ ''```'' @ post) = ''```'' @ post"
    by (simp add: dropWhile_append2)
  have "json_match (pre @ ''```json'' @ mid @ ''```'' @ post) = json_match (''```json'' @ mid @ ''```'' @ post)"
    using fence1 by (rule json_match_skip)
  also have "\<dots> = Some []"
    using drop by simp
  finally show ?thesis
    by (simp add: extractJsonFromMarkdown_def)
qed

lemma fence_close_None: "\<not> sublist ''```'' s \<Longrightarrow> fence_close s = None"
proof (induction s)
  case Nil
  then show ?case by simp
next
  case (Cons c cs)
  have "\<not> prefix ''```'' (dropWhile is_space (c # cs))"
  proof
    assume "prefix ''```'' (dropWhile is_space (c # cs))"
    then have "sublist ''```'' (dropWhile is_space (c # cs))"
      by (rule prefix_imp_sublist)
    moreover have "sublist (dropWhile is_space (c # cs)) (c # cs)"
      by (rule suffix_imp_sublist) (rule suffix_dropWhile)
    ultimately have "sublist ''```'' (c # cs)"
      by (blast intro: sublist_order.order_trans)
    with Cons.prems show False by simp
  qed
  moreover from Cons.prems have "\<not> sublist ''```'' cs"
    by (simp add: sublist_Cons_right)
  ultimately show ?case using Cons.IH by simp
qed

lemma extract_open_fence:
  assumes fence1: "\<not> sublist ''```json'' (pre @ ''```jso'')"
    and fence2: "\<not> sublist ''```'' rest"
  shows "extractJsonFromMarkdown (pre @ ''```json'' @ rest) = pre @ ''```json'' @ rest"
proof -
  have "sublist (dropWhile is_space rest) rest"
    by (rule suffix_imp_sublist) (rule suffix_dropWhile)
  with fence2 have "\<not> sublist ''```'' (dropWhile is_space rest)"
    by (blast intro: sublist_order.order_trans)
  then have none: "fence_close (dropWhile is_space rest) = None"
    by (rule fence_close_None)
  have "sublist ''```'' ''```json''"
    by (simp add: sublist_code)
  with fence2 have "\<not> sublist ''```json'' rest"
    by (blast intro: sublist_order.order_trans)
  with fence2 have "\<not> sublist ''```json'' (''``json'' @ rest)"
    by (simp add: sublist_Cons_right)
  then have "json_match (''``json'' @ rest) = None"
    by (rule json_match_None)
  with none have "json_match (''```json'' @ rest) = None"
    by simp
  moreover have "json_match (pre @ ''```json'' @ rest) = json_match (''```json'' @ rest)"
    using fence1 by (rule json_match_skip)
  ultimately show ?thesis
    by (simp add: extractJsonFromMarkdown_def)
qed

text \<open>
  Claim C7, as amended. \<^verbatim>\<open>extractJsonFromMarkdown\<close> returns a text without
  \<^verbatim>\<open>```json\<close> unchanged, and so a text whose first \<^verbatim>\<open>```json\<close> is followed by
  no closing fence. On a text whose first \<^verbatim>\<open>```json\<close> stands after \<open>pre\<close> and is
  followed by \<open>mid\<close> and the first closing fence, it returns \<open>mid\<close> trimmed when
  \<open>mid\<close> is not empty or white space only, and the whole text unchanged when it
  is. Applying it twice equals applying it once, on every input.
\<close>

theorem extract_json_fence:
  "(\<not> sublist ''```json'' s \<longrightarrow> extractJsonFromMarkdown s = s)
   \<and> (\<not> sublist ''```json'' (pre @ ''```jso'') \<and> \<not> sublist ''```'' rest \<longrightarrow>
        extractJsonFromMarkdown (pre @ ''```json'' @ rest) = pre @ ''```json'' @ rest)
   \<and> (\<not> sublist ''```json'' (pre @ ''```jso'') \<and> \<not> sublist ''```'' (mid @ ''``'')
        \<and> trim mid \<noteq> [] \<longrightarrow>
        extractJsonFromMarkdown (pre @ ''```json'' @ mid @ ''```'' @ post) = trim mid)
   \<and> (\<not> sublist ''```json'' (pre @ ''```jso'') \<and> trim mid = [] \<longrightarrow>
        extractJsonFromMarkdown (pre @ ''```json'' @ mid @ ''```'' @ post)
          = pre @ ''```json'' @ mid @ ''```'' @ post)
   \<and> extractJsonFromMarkdown (extractJsonFromMarkdown s) = extractJsonFromMarkdown s"
proof (intro conjI impI)
  show "extractJsonFromMarkdown s = s" if "\<not> sublist ''```json'' s"
    using json_match_None [OF that] by (simp add: extractJsonFromMarkdown_def)
  show "extractJsonFromMarkdown (extractJsonFromMarkdown s) = extractJsonFromMarkdown s"
    by (rule extract_idem)
  show "extractJsonFromMarkdown (pre @ ''```json'' @ rest) = pre @ ''```json'' @ rest"
    if "\<not> sublist ''```json'' (pre @ ''```jso'') \<and> \<not> sublist ''```'' rest"
    using that by (intro extract_open_fence) simp_all
  show "extractJsonFromMarkdown (pre @ ''```json'' @ mid @ ''```'' @ post) = trim mid"
    if "\<not> sublist ''```json'' (pre @ ''```jso'') \<and> \<not> sublist ''```'' (mid @ ''``'')
        \<and> trim mid \<noteq> []"
    using that by (intro extract_one_fence) simp_all
  show "extractJsonFromMarkdown (pre @ ''```json'' @ mid @ ''```'' @ post)
          = pre @ ''```json'' @ mid @ ''```'' @ post"
    if "\<not> sublist ''```json'' (pre @ ''```jso'') \<and> trim mid = []"
    using that by (intro extract_empty_fence) simp_all
qed

theorem extract_json_fence_witness:
  "\<not> sublist ''```json'' ''[1, 2]''
   \<and> extractJsonFromMarkdown ''[1, 2]'' = ''[1, 2]''
   \<and> \<not> sublist ''```json'' (''Here it is: '' @ ''```jso'')
   \<and> \<not> sublist ''```'' '' [1, 2] and no more''
   \<and> extractJsonFromMarkdown (''Here it is: '' @ ''```json'' @ '' [1, 2] and no more'')
       = ''Here it is: '' @ ''```json'' @ '' [1, 2] and no more''
   \<and> \<not> sublist ''```'' (''\<newline>[1, 2] \<newline>'' @ ''``'')
   \<and> trim ''\<newline>[1, 2] \<newline>'' \<noteq> []
   \<and> extractJsonFromMarkdown (''Here it is: '' @ ''```json'' @ ''\<newline>[1, 2] \<newline>'' @ ''```'' @ '' Done.'')
       = ''[1, 2]''
   \<and> trim '' \<newline>'' = []
   \<and> extractJsonFromMarkdown (''Here it is: '' @ ''```json'' @ '' \<newline>'' @ ''```'' @ '' Done.'')
       = ''Here it is: '' @ ''```json'' @ '' \<newline>'' @ ''```'' @ '' Done.''
   \<and> extractJsonFromMarkdown (extractJsonFromMarkdown ''[1, 2]'') = extractJsonFromMarkdown ''[1, 2]''"
  using extract_json_fence [of "''[1, 2]''" "''Here it is: ''" "'' [1, 2] and no more''"
      "''\<newline>[1, 2] \<newline>''" "'' Done.''"]
    extract_json_fence [of "''[1, 2]''" "''Here it is: ''" "'' [1, 2] and no more''"
      "'' \<newline>''" "'' Done.''"]
  by (simp add: sublist_code trim_def is_space_def)

text \<open>
  The claim as stated fails on a fence with nothing but white space inside: the
  group is empty, the guard \<^verbatim>\<open>match[1]\<close> is false and the whole input is returned
  instead of the (empty) interior.
\<close>

theorem extract_json_empty_fence:
  "extractJsonFromMarkdown (''```json'' @ ''\<newline>'' @ ''```'') = ''```json'' @ ''\<newline>'' @ ''```''
   \<and> extractJsonFromMarkdown (''```json'' @ ''\<newline>'' @ ''```'') \<noteq> trim ''\<newline>''"
  by (simp add: extractJsonFromMarkdown_def trim_def is_space_def)

section \<open>Runs that return\<close>

lemma manuscript_snoc:
  "manuscript storyline (chs @ [c]) = manuscript storyline chs @ chapter_block (Suc (length chs)) c"
proof -
  have "[1..<Suc (Suc (length chs))] = [1..<Suc (length chs)] @ [Suc (length chs)]"
    by simp
  then have "zip [1..<Suc (Suc (length chs))] (chs @ [c]) = zip [1..<Suc (length chs)] chs @ [(Suc (length chs), c)]"
    by (simp only: zip_append length_upt diff_Suc_1 zip_Cons_Cons zip_Nil One_nat_def)
  then show ?thesis by (simp add: manuscript_def)
qed

lemma manuscript_first:
  "manuscript storyline [c] = ''Storyline:\<newline>'' @ storyline @ ''\<newline>\<newline>'' @ chapter_block 1 c"
  by (simp add: manuscript_def)

lemmas writeChapter_induct = writeChapter.raw_induct [rotated 1, consumes 1, case_names step]

lemma writeChapter_returns_aux:
  assumes "writeChapter env prev plot ct tr = Some y"
  shows "\<forall>r tr'. y = (Inr r, tr') \<longrightarrow>
           (\<exists>a. tr' = tr @ replicate (Suc a) (ollama_request env (chapter_prompt prev plot ct))
              \<and> reply_of (service env (length tr + a) (ollama_request env (chapter_prompt prev plot ct))) = Inr r
              \<and> 1000 \<le> length r
              \<and> (\<forall>j<a. \<exists>r'. reply_of (service env (length tr + j)
                            (ollama_request env (chapter_prompt prev plot ct))) = Inr r'
                          \<and> length r' < 1000))"
  using assms
proof (induct env prev plot ct tr y rule: writeChapter_induct)
  case (step wc env prev plot ct tr y)
  note IH = step(1) and body = step(2)
  let ?req = "ollama_request env (chapter_prompt prev plot ct)"
  show ?case
  proof (intro allI impI)
    fix r tr' assume y: "y = (Inr r, tr')"
    from body y obtain ks where ks: "object_keys ct = Inr ks"
      by (auto split: sum.splits)
    show "\<exists>a. tr' = tr @ replicate (Suc a) ?req
            \<and> reply_of (service env (length tr + a) ?req) = Inr r
            \<and> 1000 \<le> length r
            \<and> (\<forall>j<a. \<exists>r'. reply_of (service env (length tr + j) ?req) = Inr r' \<and> length r' < 1000)"
    proof (cases "reply_of (service env (length tr) ?req)")
      case (Inl e)
      with body ks y show ?thesis
        by (simp add: callOllama_def Let_def)
    next
      case (Inr response)
      show ?thesis
      proof (cases "length response < 1000")
        case False
        with body ks y Inr have "r = response" "tr' = tr @ [?req]"
          by (simp_all add: callOllama_def Let_def)
        with Inr False show ?thesis
          by (intro exI [of _ 0]) simp
      next
        case True
        with body ks y Inr have "wc env prev plot ct (tr @ [?req]) = Some (Inr r, tr')"
          by (simp add: callOllama_def Let_def)
        from IH [OF this] obtain a where
          a: "tr' = (tr @ [?req]) @ replicate (Suc a) ?req"
             "reply_of (service env (length (tr @ [?req]) + a) ?req) = Inr r"
             "1000 \<le> length r"
             "\<forall>j<a. \<exists>r'. reply_of (service env (length (tr @ [?req]) + j) ?req) = Inr r' \<and> length r' < 1000"
          by blast
        have "\<exists>r'. reply_of (service env (length tr + j) ?req) = Inr r' \<and> length r' < 1000"
          if "j < Suc a" for j
        proof (cases j)
          case 0
          with Inr True show ?thesis by simp
        next
          case (Suc j')
          with that a(4) show ?thesis by simp
        qed
        with a show ?thesis
          by (intro exI [of _ "Suc a"]) (simp add: replicate_append_same)
      qed
    qed
  qed
qed

lemma writeChapter_returns:
  assumes "writeChapter env prev plot ct tr = Some (Inr r, tr')"
  shows "\<exists>a. tr' = tr @ replicate (Suc a) (ollama_request env (chapter_prompt prev plot ct))
              \<and> reply_of (service env (length tr + a) (ollama_request env (chapter_prompt prev plot ct))) = Inr r
              \<and> 1000 \<le> length r
              \<and> (\<forall>j<a. \<exists>r'. reply_of (service env (length tr + j)
                            (ollama_request env (chapter_prompt prev plot ct))) = Inr r'
                          \<and> length r' < 1000)"
  using writeChapter_returns_aux [OF assms] by simp

lemma writeChapter_accepts:
  assumes "object_keys ct = Inr ks"
    and "\<forall>j<a. \<exists>r'. reply_of (service env (length tr + j)
                   (ollama_request env (chapter_prompt prev plot ct))) = Inr r' \<and> length r' < 1000"
    and "reply_of (service env (length tr + a) (ollama_request env (chapter_prompt prev plot ct))) = Inr r"
    and "1000 \<le> length r"
  shows "writeChapter env prev plot ct tr =
           Some (Inr r, tr @ replicate (Suc a) (ollama_request env (chapter_prompt prev plot ct)))"
  using assms(2-)
proof (induction a arbitrary: tr)
  case 0
  then show ?case
    using assms(1) by (subst writeChapter.simps) (simp add: callOllama_def Let_def)
next
  case (Suc a)
  let ?req = "ollama_request env (chapter_prompt prev plot ct)"
  from Suc.prems(1) obtain r' where r': "reply_of (service env (length tr) ?req) = Inr r'" "length r' < 1000"
    by (metis add.right_neutral zero_less_Suc)
  have "writeChapter env prev plot ct (tr @ [?req]) = Some (Inr r, (tr @ [?req]) @ replicate (Suc a) ?req)"
  proof (rule Suc.IH)
    show "\<forall>j<a. \<exists>r'. reply_of (service env (length (tr @ [?req]) + j) ?req) = Inr r' \<and> length r' < 1000"
      using Suc.prems(1) by (metis Suc_less_eq add_Suc_shift length_append_singleton)
    show "reply_of (service env (length (tr @ [?req]) + a) ?req) = Inr r"
      using Suc.prems(2) by simp
    show "1000 \<le> length r" by (rule Suc.prems(3))
  qed
  with r' show ?case
    using assms(1) by (subst writeChapter.simps) (simp add: callOllama_def Let_def replicate_append_same)
qed


lemma chapter_loop_step:
  assumes "chapter_loop env storyline plan (i # is) (nov, chs, objs) tr = Some (Inr st', tr')"
  obtains entry c tr1 ks where
    "property_at plan i = Inr entry"
    "writeChapter env nov storyline entry tr = Some (Inr c, tr1)"
    "object_keys entry = Inr ks"
    "chapter_loop env storyline plan is
       (nov @ chapter_block (i + 1) c, chs @ [c], objs @ [(first_key ks, c)]) tr1 = Some (Inr st', tr')"
proof (cases "property_at plan i")
  case (Inl e)
  with assms show ?thesis by simp
next
  case entry: (Inr entry)
  show ?thesis
  proof (cases "writeChapter env nov storyline entry tr")
    case None
    with assms entry show ?thesis by simp
  next
    case (Some out)
    obtain res tr1 where out: "out = (res, tr1)" by (cases out)
    show ?thesis
    proof (cases res)
      case (Inl e)
      with assms entry Some out show ?thesis by simp
    next
      case c: (Inr c)
      show ?thesis
      proof (cases "object_keys entry")
        case (Inl e)
        with assms entry Some out c show ?thesis by simp
      next
        case (Inr ks)
        with assms entry Some out c that show ?thesis by simp
      qed
    qed
  qed
qed

lemma chapter_loop_returns:
  assumes "chapter_loop env storyline plan [length chs..<n] (manuscript storyline chs, chs, objs) tr
             = Some (Inr (nov', chs', objs'), tr')"
  shows "nov' = manuscript storyline chs'
       \<and> length chs' = max n (length chs)
       \<and> take (length chs) chs' = chs
       \<and> objs' = objs @ map (\<lambda>i. (plan_key plan i, chs' ! i)) [length chs..<n]
       \<and> (\<forall>i. length chs \<le> i \<and> i < n \<longrightarrow> entry_ok plan i \<and> 1000 \<le> length (chs' ! i))
       \<and> (\<exists>attempts. tr' = tr @ concat (map (\<lambda>i. replicate (Suc (attempts i))
                                            (chapter_request env storyline chs' plan i))
                                     [length chs..<n]))"
  using assms
proof (induction "n - length chs" arbitrary: chs objs tr)
  case 0
  then have "[length chs..<n] = []" by simp
  with "0.prems" have "nov' = manuscript storyline chs" "chs' = chs" "objs' = objs" "tr' = tr"
    by auto
  with 0 show ?case by auto
next
  case (Suc k)
  let ?m = "length chs"
  from Suc.hyps(2) have m: "?m < n" by simp
  then have upt: "[?m..<n] = ?m # [Suc ?m..<n]" by (rule upt_conv_Cons)
  from Suc.prems obtain entry c tr1 ks where
    entry: "property_at plan ?m = Inr entry" and
    wc: "writeChapter env (manuscript storyline chs) storyline entry tr = Some (Inr c, tr1)" and
    ks: "object_keys entry = Inr ks" and
    rest: "chapter_loop env storyline plan [Suc ?m..<n]
       (manuscript storyline chs @ chapter_block (?m + 1) c, chs @ [c], objs @ [(first_key ks, c)]) tr1
         = Some (Inr (nov', chs', objs'), tr')"
    unfolding upt by (rule chapter_loop_step)
  from rest have rest': "chapter_loop env storyline plan [length (chs @ [c])..<n]
       (manuscript storyline (chs @ [c]), chs @ [c], objs @ [(first_key ks, c)]) tr1
         = Some (Inr (nov', chs', objs'), tr')"
    by (simp add: manuscript_snoc)
  from Suc.hyps(2) have "k = n - length (chs @ [c])" by simp
  from Suc.hyps(1) [OF this rest'] m obtain attempts where
    nov: "nov' = manuscript storyline chs'" and
    len: "length chs' = n" and
    tk: "take (Suc ?m) chs' = chs @ [c]" and
    objs: "objs' = (objs @ [(first_key ks, c)]) @ map (\<lambda>i. (plan_key plan i, chs' ! i)) [Suc ?m..<n]" and
    long: "\<forall>i. Suc ?m \<le> i \<and> i < n \<longrightarrow> entry_ok plan i \<and> 1000 \<le> length (chs' ! i)" and
    tr': "tr' = tr1 @ concat (map (\<lambda>i. replicate (Suc (attempts i))
                                            (chapter_request env storyline chs' plan i))
                                     [Suc ?m..<n])"
    by (auto simp: max_def)
  from writeChapter_returns [OF wc] obtain a where
    tr1: "tr1 = tr @ replicate (Suc a) (ollama_request env
                  (chapter_prompt (manuscript storyline chs) storyline entry))" and
    c: "1000 \<le> length c"
    by blast
  have "take ?m (take (Suc ?m) chs') = take ?m (chs @ [c])"
    by (simp only: tk)
  then have tkm: "take ?m chs' = chs" by simp
  have "take (Suc ?m) chs' ! ?m = (chs @ [c]) ! ?m"
    by (simp only: tk)
  then have nth: "chs' ! ?m = c" by simp
  from entry have ea: "entry_at plan ?m = entry"
    by (simp add: entry_at_def)
  with ks have pk: "plan_key plan ?m = first_key ks"
    by (simp add: plan_key_def)
  from entry ks have ok: "entry_ok plan ?m"
    by (simp add: entry_ok_def)
  have req: "chapter_request env storyline chs' plan ?m
         = ollama_request env (chapter_prompt (manuscript storyline chs) storyline entry)"
    by (simp add: chapter_request_def tkm ea)
  let ?att = "attempts(?m := a)"
  let ?F = "\<lambda>i. replicate (Suc (attempts i)) (chapter_request env storyline chs' plan i)"
  let ?F' = "\<lambda>i. replicate (Suc (?att i)) (chapter_request env storyline chs' plan i)"
  have eq: "map ?F' [Suc ?m..<n] = map ?F [Suc ?m..<n]"
    by (rule map_cong) auto
  have "concat (map ?F' [?m..<n]) = ?F' ?m @ concat (map ?F' [Suc ?m..<n])"
    by (subst upt) simp
  also have "\<dots> = ?F' ?m @ concat (map ?F [Suc ?m..<n])"
    by (simp only: eq)
  also have "?F' ?m = replicate (Suc a) (ollama_request env
                  (chapter_prompt (manuscript storyline chs) storyline entry))"
    by (simp add: req)
  finally have "tr @ concat (map ?F' [?m..<n]) = tr'"
    by (simp only: tr' tr1 append_assoc)
  then have "tr' = tr @ concat (map ?F' [?m..<n])"
    by (rule sym)
  then have trace: "\<exists>attempts. tr' = tr @ concat (map (\<lambda>i. replicate (Suc (attempts i))
                                     (chapter_request env storyline chs' plan i)) [?m..<n])"
    by (intro exI [of _ ?att])
  have long': "\<forall>i. ?m \<le> i \<and> i < n \<longrightarrow> entry_ok plan i \<and> 1000 \<le> length (chs' ! i)"
  proof (intro allI impI)
    fix i assume "?m \<le> i \<and> i < n"
    then consider "i = ?m" | "Suc ?m \<le> i \<and> i < n" by linarith
    then show "entry_ok plan i \<and> 1000 \<le> length (chs' ! i)"
      using long ok nth c by cases auto
  qed
  have "objs' = objs @ map (\<lambda>i. (plan_key plan i, chs' ! i)) [?m..<n]"
    unfolding upt using objs pk nth by simp
  with nov len tkm long' trace m show ?case
    by (simp add: max_def)
qed


lemma writeFirstChapter_returns:
  assumes "writeFirstChapter env plot entry ws tr = (Inr fc, tr1)"
  shows "\<exists>promptText draft.
             firstChapter_prompt plot entry ws = Inr promptText
           \<and> reply_of (service env (length tr) (ollama_request env promptText)) = Inr draft
           \<and> reply_of (service env (Suc (length tr))
                     (ollama_request env (firstChapter_improvePrompt plot draft ws))) = Inr fc
           \<and> tr1 = tr @ [ollama_request env promptText,
                          ollama_request env (firstChapter_improvePrompt plot draft ws)]"
  using assms
  by (auto simp: writeFirstChapter_def await_def callOllama_def Let_def split: sum.splits)

lemma write_chapters_cases:
  assumes "write_chapters env numChapters ws t storyline plan tr = Some (Inr res, tr')"
  obtains entry fc tr1 ks nov' chs objs where
    "property_at plan 0 = Inr entry"
    "writeFirstChapter env storyline entry ws tr = (Inr fc, tr1)"
    "object_keys entry = Inr ks"
    "chapter_loop env storyline plan [1..<nat numChapters]
        (manuscript storyline [fc], [fc], [(first_key ks, fc)]) tr1 = Some (Inr (nov', chs, objs), tr')"
    "res = \<lparr>novel = nov', title = t, chapters = chs, chapterObjects = objs\<rparr>"
proof (cases "property_at plan 0")
  case (Inl e)
  with assms show ?thesis by (simp add: write_chapters_def)
next
  case entry: (Inr entry)
  obtain r1 tr1 where first: "writeFirstChapter env storyline entry ws tr = (r1, tr1)"
    by (cases "writeFirstChapter env storyline entry ws tr")
  show ?thesis
  proof (cases r1)
    case (Inl e)
    with assms entry first show ?thesis by (simp add: write_chapters_def)
  next
    case fc: (Inr fc)
    show ?thesis
    proof (cases "object_keys entry")
      case (Inl e)
      with assms entry first fc show ?thesis by (simp add: write_chapters_def)
    next
      case ks: (Inr ks)
      let ?loop = "chapter_loop env storyline plan [1..<nat numChapters]
        (manuscript storyline [fc], [fc], [(first_key ks, fc)]) tr1"
      from assms entry first fc ks have run:
        "(case ?loop of None \<Rightarrow> None
          | Some (Inl e, tr'') \<Rightarrow> Some (Inl e, tr'')
          | Some (Inr (nov', chs, objs), tr'') \<Rightarrow>
              Some (Inr \<lparr>novel = nov', title = t, chapters = chs, chapterObjects = objs\<rparr>, tr''))
         = Some (Inr res, tr')"
        by (simp add: write_chapters_def manuscript_first)
      show ?thesis
      proof (cases ?loop)
        case None
        with run show ?thesis by simp
      next
        case (Some out)
        obtain r2 tr2 where out: "out = (r2, tr2)" by (cases out)
        show ?thesis
        proof (cases r2)
          case (Inl e)
          with run Some out show ?thesis by simp
        next
          case (Inr st)
          obtain nov' chs objs where st: "st = (nov', chs, objs)" by (cases st)
          from run Some out Inr st
          have "res = \<lparr>novel = nov', title = t, chapters = chs, chapterObjects = objs\<rparr>" "tr2 = tr'"
            by simp_all
          with entry first fc ks Some out Inr st that show ?thesis by simp
        qed
      qed
    qed
  qed
qed

lemma write_chapters_returns:
  assumes "write_chapters env numChapters ws t storyline plan tr = Some (Inr res, tr')"
  shows "novel res = manuscript storyline (chapters res)
       \<and> title res = t
       \<and> length (chapters res) = max 1 (nat numChapters)
       \<and> chapterObjects res =
           map (\<lambda>i. (plan_key plan i, chapters res ! i))
             [0..<max 1 (nat numChapters)]
       \<and> (\<forall>i<max 1 (nat numChapters). entry_ok plan i)
       \<and> (\<forall>i. 1 \<le> i \<and> i < nat numChapters \<longrightarrow> 1000 \<le> length (chapters res ! i))
       \<and> (\<exists>promptText draft attempts.
             firstChapter_prompt storyline (entry_at plan 0) ws = Inr promptText
           \<and> reply_of (service env (length tr) (ollama_request env promptText)) = Inr draft
           \<and> reply_of (service env (Suc (length tr)) (ollama_request env
               (firstChapter_improvePrompt storyline draft ws))) = Inr (chapters res ! 0)
           \<and> tr' = tr
               @ [ollama_request env promptText,
                  ollama_request env (firstChapter_improvePrompt storyline draft ws)]
               @ concat (map (\<lambda>i. replicate (Suc (attempts i))
                    (chapter_request env storyline (chapters res)
                       plan i))
                  [1..<nat numChapters]))"
proof -
  let ?plan = plan
  from assms obtain entry fc tr1 ks nov' chs objs where
    entry: "property_at ?plan 0 = Inr entry" and
    first: "writeFirstChapter env storyline entry ws tr = (Inr fc, tr1)" and
    ks: "object_keys entry = Inr ks" and
    loop: "chapter_loop env storyline ?plan [1..<nat numChapters]
        (manuscript storyline [fc], [fc], [(first_key ks, fc)]) tr1 = Some (Inr (nov', chs, objs), tr')" and
    res: "res = \<lparr>novel = nov', title = t, chapters = chs, chapterObjects = objs\<rparr>"
    by (rule write_chapters_cases)
  from loop have "chapter_loop env storyline ?plan [length [fc]..<nat numChapters]
        (manuscript storyline [fc], [fc], [(first_key ks, fc)]) tr1 = Some (Inr (nov', chs, objs), tr')"
    by simp
  from chapter_loop_returns [OF this] obtain attempts where
    nov: "nov' = manuscript storyline chs" and
    len: "length chs = max (nat numChapters) 1" and
    tk: "take 1 chs = [fc]" and
    objs: "objs = [(first_key ks, fc)] @ map (\<lambda>i. (plan_key ?plan i, chs ! i)) [1..<nat numChapters]" and
    long: "\<forall>i. 1 \<le> i \<and> i < nat numChapters \<longrightarrow> entry_ok ?plan i \<and> 1000 \<le> length (chs ! i)" and
    tr': "tr' = tr1 @ concat (map (\<lambda>i. replicate (Suc (attempts i))
                    (chapter_request env storyline chs ?plan i)) [1..<nat numChapters])"
    by auto
  from tk len have nth0: "chs ! 0 = fc"
    by (cases chs) auto
  from entry have ea: "entry_at ?plan 0 = entry"
    by (simp add: entry_at_def)
  with ks have pk: "plan_key ?plan 0 = first_key ks"
    by (simp add: plan_key_def)
  from entry ks have ok0: "entry_ok ?plan 0"
    by (simp add: entry_ok_def)
  from writeFirstChapter_returns [OF first] ea obtain promptText draft where
    draft: "firstChapter_prompt storyline (entry_at ?plan 0) ws = Inr promptText"
      "reply_of (service env (length tr) (ollama_request env promptText)) = Inr draft"
      "reply_of (service env (Suc (length tr)) (ollama_request env
               (firstChapter_improvePrompt storyline draft ws))) = Inr fc"
      "tr1 = tr @ [ollama_request env promptText,
                   ollama_request env (firstChapter_improvePrompt storyline draft ws)]"
    by auto
  have upt: "[0..<max 1 (nat numChapters)] = 0 # [1..<nat numChapters]"
    by (cases "1 \<le> nat numChapters") (simp_all add: upt_conv_Cons max_def)
  have "objs = map (\<lambda>i. (plan_key ?plan i, chs ! i)) [0..<max 1 (nat numChapters)]"
    unfolding upt using objs pk nth0 by simp
  moreover have "\<forall>i<max 1 (nat numChapters). entry_ok ?plan i"
  proof (intro allI impI)
    fix i assume "i < max 1 (nat numChapters)"
    then have "i = 0 \<or> (1 \<le> i \<and> i < nat numChapters)"
      by (cases i) (simp_all add: max_def split: if_splits)
    then show "entry_ok ?plan i" using ok0 long by auto
  qed
  moreover have "length chs = max 1 (nat numChapters)"
    using len by (simp add: max.commute)
  ultimately show ?thesis
    using res nov long draft tr' nth0 by auto
qed

lemma chapter_stages_plan:
  "parse_plan env storyline numChapters = Inr plan \<Longrightarrow>
     chapter_stages env numChapters ws t storyline tr
       = write_chapters env numChapters ws t storyline plan tr"
  by (simp add: chapter_stages_def)

lemma chapter_stages_returned:
  assumes "chapter_stages env numChapters ws t storyline tr = Some (Inr res, tr')"
  obtains plan where "parse_plan env storyline numChapters = Inr plan"
    "write_chapters env numChapters ws t storyline plan tr = Some (Inr res, tr')"
  using assms by (cases "parse_plan env storyline numChapters") (simp_all add: chapter_stages_def)

lemma chapter_stages_returns:
  assumes "chapter_stages env numChapters ws t storyline tr = Some (Inr res, tr')"
  shows "\<exists>plan. parse_plan env storyline numChapters = Inr plan
       \<and> novel res = manuscript storyline (chapters res)
       \<and> title res = t
       \<and> length (chapters res) = max 1 (nat numChapters)
       \<and> chapterObjects res =
           map (\<lambda>i. (plan_key plan i, chapters res ! i)) [0..<max 1 (nat numChapters)]
       \<and> (\<forall>i<max 1 (nat numChapters). entry_ok plan i)
       \<and> (\<forall>i. 1 \<le> i \<and> i < nat numChapters \<longrightarrow> 1000 \<le> length (chapters res ! i))
       \<and> (\<exists>promptText draft attempts.
             firstChapter_prompt storyline (entry_at plan 0) ws = Inr promptText
           \<and> reply_of (service env (length tr) (ollama_request env promptText)) = Inr draft
           \<and> reply_of (service env (Suc (length tr)) (ollama_request env
               (firstChapter_improvePrompt storyline draft ws))) = Inr (chapters res ! 0)
           \<and> tr' = tr
               @ [ollama_request env promptText,
                  ollama_request env (firstChapter_improvePrompt storyline draft ws)]
               @ concat (map (\<lambda>i. replicate (Suc (attempts i))
                    (chapter_request env storyline (chapters res) plan i))
                  [1..<nat numChapters]))"
proof -
  from assms obtain plan where plan: "parse_plan env storyline numChapters = Inr plan"
    and run: "write_chapters env numChapters ws t storyline plan tr = Some (Inr res, tr')"
    by (rule chapter_stages_returned)
  from write_chapters_returns [OF run] plan show ?thesis
    by (intro exI [of _ plan]) simp
qed

section \<open>What a run sends and how it ends\<close>

lemma answered_prefix:
  "prefix tr1 tr2 \<Longrightarrow> k < length tr1 \<Longrightarrow> answered env tr2 k = answered env tr1 k"
  by (auto simp: answered_def prefix_def nth_append)

lemma calls_ok_prefix:
  "prefix tr1 tr2 \<Longrightarrow> b \<le> length tr1 \<Longrightarrow> calls_ok env tr2 a b = calls_ok env tr1 a b"
  by (simp add: calls_ok_def answered_prefix)

lemma calls_ok_join:
  "calls_ok env tr a m \<Longrightarrow> calls_ok env tr m b \<Longrightarrow> calls_ok env tr a b"
  by (auto simp: calls_ok_def) (meson not_le_imp_less)

lemma settles_return: "settles env ok tr (return a tr)"
  by (auto simp: settles_def return_def calls_ok_def)

lemma settles_callOllama: "settles env ok tr (callOllama env p tr)"
  by (cases "reply_of (service env (length tr) (ollama_request env p))")
     (auto simp: settles_def callOllama_def Let_def calls_ok_def answered_def less_Suc_eq_le)

lemma settles_weaken: "settles env ok tr out \<Longrightarrow> (ok' \<Longrightarrow> ok) \<Longrightarrow> settles env ok' tr out"
  by (auto simp: settles_def split: sum.splits)

lemma settles_error_type:
  "settles env ok tr (Inl e :: error + 'a, tr') \<Longrightarrow> settles env ok tr (Inl e :: error + 'b, tr')"
  by (simp add: settles_def)

lemma settles_own_error: "\<not> ok \<Longrightarrow> settles env ok tr (Inl TypeError, tr)"
  by (auto simp: settles_def calls_ok_def)

lemma settles_range_error: "\<not> ok \<Longrightarrow> settles env ok tr (Inl RangeError, tr)"
  by (auto simp: settles_def calls_ok_def)

lemma settles_seq:
  assumes 1: "settles env ok tr (Inr a, tr1)" and 2: "settles env ok tr1 (res, tr2)"
  shows "settles env ok tr (res, tr2)"
proof -
  from 1 have p1: "prefix tr tr1" and c1: "calls_ok env tr1 (length tr) (length tr1)"
    by (simp_all add: settles_def)
  from 2 have p2: "prefix tr1 tr2"
    by (simp add: settles_def)
  from p1 p2 have p: "prefix tr tr2" by (rule prefix_order.trans)
  from p1 p2 have le: "length tr \<le> length tr1" "length tr1 \<le> length tr2"
    by (simp_all add: prefix_length_le)
  from c1 p2 have c1': "calls_ok env tr2 (length tr) (length tr1)"
    by (simp add: calls_ok_prefix)
  show ?thesis
  proof (cases res)
    case (Inr b)
    with 2 have "calls_ok env tr2 (length tr1) (length tr2)"
      by (simp add: settles_def)
    with c1' have "calls_ok env tr2 (length tr) (length tr2)"
      by (rule calls_ok_join)
    with p Inr show ?thesis by (simp add: settles_def)
  next
    case (Inl e)
    with 2 consider
      "length tr1 < length tr2" "calls_ok env tr2 (length tr1) (length tr2 - 1)"
        "answered env tr2 (length tr2 - 1) = Inl e"
      | "e = TypeError \<or> e = RangeError" "\<not> ok" "calls_ok env tr2 (length tr1) (length tr2)"
      by (auto simp: settles_def)
    then show ?thesis
    proof cases
      case 1
      from c1' 1(2) have "calls_ok env tr2 (length tr) (length tr2 - 1)"
        by (rule calls_ok_join)
      with 1 le p Inl show ?thesis by (simp add: settles_def)
    next
      case 2
      from c1' 2(3) have "calls_ok env tr2 (length tr) (length tr2)"
        by (rule calls_ok_join)
      with 2 p Inl show ?thesis by (simp add: settles_def)
    qed
  qed
qed

lemma settles_await:
  assumes "settles env ok tr (m tr)" and "\<And>a tr1. settles env ok tr1 (f a tr1)"
  shows "settles env ok tr (await m f tr)"
proof (cases "m tr")
  case (Pair res tr1)
  show ?thesis
  proof (cases res)
    case (Inl e)
    with Pair assms(1) show ?thesis
      by (simp add: await_def settles_def)
  next
    case (Inr a)
    obtain res2 tr2 where f: "f a tr1 = (res2, tr2)" by (cases "f a tr1")
    from assms(1) Pair Inr have "settles env ok tr (Inr a, tr1)" by simp
    moreover have "settles env ok tr1 (f a tr1)" by (rule assms(2))
    then have "settles env ok tr1 (res2, tr2)" by (simp add: f)
    ultimately have "settles env ok tr (res2, tr2)" by (rule settles_seq)
    with Pair Inr f show ?thesis by (simp add: await_def)
  qed
qed

lemma storyline_stages_settles: "settles env ok tr (storyline_stages env prompt numChapters tr)"
  unfolding storyline_stages_def generatePlots_def selectMostEngaging_def improvePlot_def
    getTitle_def generateStoryline_def
  by (intro settles_await settles_callOllama settles_return)

lemma collect_error: "collect rs = Inl e \<Longrightarrow> Inl e \<in> set rs"
  by (induction rs rule: collect.induct) (auto split: sum.splits)

lemma js_to_string_error: "js_to_string v = Inl e \<Longrightarrow> e = TypeError"
proof (induction v arbitrary: e rule: js_to_string.induct)
  case (6 xs)
  from "6.prems" have "collect (map (\<lambda>x. if x = JNull then Inr [] else js_to_string (Some x)) xs) = Inl e"
    by (simp split: sum.splits)
  then have "Inl e \<in> set (map (\<lambda>x. if x = JNull then Inr [] else js_to_string (Some x)) xs)"
    by (rule collect_error)
  then obtain x where "x \<in> set xs" "x \<noteq> JNull" "js_to_string (Some x) = Inl e"
    by (auto split: if_splits)
  then show ?case by (rule "6.IH")
qed (auto split: if_splits)

lemma printable_prompt:
  "printable entry \<Longrightarrow> \<exists>promptText. firstChapter_prompt plot entry ws = Inr promptText"
  by (cases "js_to_string entry") (simp_all add: printable_def firstChapter_prompt_def)

lemma prompt_printable: "firstChapter_prompt plot entry ws = Inr promptText \<Longrightarrow> printable entry"
  by (cases "js_to_string entry") (simp_all add: printable_def firstChapter_prompt_def)

lemma firstChapter_prompt_error: "firstChapter_prompt plot entry ws = Inl e \<Longrightarrow> e = TypeError"
  by (cases "js_to_string entry") (auto simp: firstChapter_prompt_def dest: js_to_string_error)

lemma unprintable_prompt: "\<not> printable entry \<Longrightarrow> firstChapter_prompt plot entry ws = Inl TypeError"
  by (cases "firstChapter_prompt plot entry ws")
     (auto dest: firstChapter_prompt_error prompt_printable)

lemma writeFirstChapter_unprintable:
  "\<not> printable entry \<Longrightarrow> writeFirstChapter env plot entry ws tr = (Inl TypeError, tr)"
  by (simp add: writeFirstChapter_def unprintable_prompt)

lemma writeFirstChapter_settles:
  "(ok \<Longrightarrow> printable entry) \<Longrightarrow> settles env ok tr (writeFirstChapter env plot entry ws tr)"
proof (cases "firstChapter_prompt plot entry ws")
  case (Inl e)
  assume "ok \<Longrightarrow> printable entry"
  with Inl printable_prompt [of entry plot ws] have "\<not> ok" by auto
  moreover from Inl have "e = TypeError" by (rule firstChapter_prompt_error)
  ultimately show ?thesis using Inl
    by (simp add: writeFirstChapter_def settles_own_error)
next
  case (Inr promptText)
  have "settles env ok tr (await (callOllama env promptText)
      (\<lambda>firstDraft. callOllama env (firstChapter_improvePrompt plot firstDraft ws)) tr)"
    by (intro settles_await settles_callOllama)
  with Inr show ?thesis by (simp add: writeFirstChapter_def)
qed

lemma createCoverImage_settles: "settles env ok tr (createCoverImage env plot tr)"
  unfolding createCoverImage_def generateCoverPrompt_def
  by (intro settles_await settles_callOllama settles_return)

lemma object_keys_error: "object_keys v = Inl e \<Longrightarrow> e = TypeError"
  by (induction v rule: object_keys.induct) auto

lemma property_at_error: "property_at v i = Inl e \<Longrightarrow> e = TypeError"
  by (cases v) auto

lemma writeChapter_settles:
  assumes "writeChapter env prev plot ct tr = Some out"
  shows "settles env (\<not> isl (object_keys ct)) tr out"
  using assms
proof (induct env prev plot ct tr out rule: writeChapter_induct)
  case (step wc env prev plot ct tr out)
  note IH = step(1) and body = step(2)
  show ?case
  proof (cases "object_keys ct")
    case (Inl e)
    with body have "out = (Inl e, tr)" by simp
    moreover from Inl have "e = TypeError" by (rule object_keys_error)
    ultimately show ?thesis using Inl by (simp add: settles_own_error)
  next
    case (Inr ks)
    obtain res tr1 where call: "callOllama env (chapter_prompt prev plot ct) tr = (res, tr1)"
      by (cases "callOllama env (chapter_prompt prev plot ct) tr")
    have s1: "settles env (\<not> isl (object_keys ct)) tr (res, tr1)"
      using settles_callOllama [of env _ tr "chapter_prompt prev plot ct"] call by simp
    show ?thesis
    proof (cases res)
      case (Inl e)
      with body Inr call s1 show ?thesis by simp
    next
      case r: (Inr response)
      show ?thesis
      proof (cases "length response < 1000")
        case False
        with body Inr call r s1 show ?thesis by simp
      next
        case True
        with body Inr call r have "wc env prev plot ct tr1 = Some out" by simp
        then have "settles env (\<not> isl (object_keys ct)) tr1 out" by (rule IH)
        with s1 r show ?thesis
          by (cases out) (auto intro: settles_seq)
      qed
    qed
  qed
qed


lemma writeChapter_bad_entry:
  "object_keys ct = Inl e \<Longrightarrow> writeChapter env prev plot ct tr = Some (Inl e, tr)"
  by (subst writeChapter.simps) simp

lemma entry_ok_keys:
  "property_at plan i = Inr entry \<Longrightarrow> entry_ok plan i \<longleftrightarrow> \<not> isl (object_keys entry)"
  by (cases "object_keys entry") (simp_all add: entry_ok_def)

lemma chapter_loop_settles:
  assumes "chapter_loop env storyline plan is st tr = Some out"
  shows "settles env (\<forall>i\<in>set is. entry_ok plan i) tr out"
  using assms
proof (induction "is" arbitrary: st tr)
  case Nil
  then have "out = return st tr" by (simp add: return_def)
  then show ?case by (simp add: settles_return)
next
  case (Cons i "is")
  let ?ok = "\<forall>j\<in>set (i # is). entry_ok plan j"
  obtain nov chs objs where st: "st = (nov, chs, objs)" by (cases st)
  show ?case
  proof (cases "property_at plan i")
    case (Inl e)
    with Cons.prems st have out: "out = (Inl e, tr)" by simp
    from Inl have e: "e = TypeError" by (rule property_at_error)
    from Inl have "\<not> ?ok" by (simp add: entry_ok_def)
    then have "settles env ?ok tr (Inl TypeError :: error + loop_state, tr)"
      by (rule settles_own_error)
    with out e show ?thesis by simp
  next
    case entry: (Inr entry)
    show ?thesis
    proof (cases "writeChapter env nov storyline entry tr")
      case None
      with Cons.prems st entry show ?thesis by simp
    next
      case (Some out1)
      obtain res tr1 where out1: "out1 = (res, tr1)" by (cases out1)
      from writeChapter_settles [OF Some] out1
      have "settles env (\<not> isl (object_keys entry)) tr (res, tr1)" by simp
      then have s1: "settles env ?ok tr (res, tr1)"
        by (rule settles_weaken) (simp add: entry_ok_keys [OF entry])
      show ?thesis
      proof (cases res)
        case (Inl e)
        with Cons.prems st entry Some out1 have "out = (Inl e, tr1)" by simp
        with s1 Inl show ?thesis by (auto intro: settles_error_type)
      next
        case c: (Inr c)
        show ?thesis
        proof (cases "object_keys entry")
          case (Inl e)
          from writeChapter_bad_entry [OF this] Some out1 c show ?thesis by simp
        next
          case (Inr ks)
          with Cons.prems st entry Some out1 c
          have "chapter_loop env storyline plan is
                  (nov @ chapter_block (i + 1) c, chs @ [c], objs @ [(first_key ks, c)]) tr1 = Some out"
            by simp
          then have "settles env (\<forall>j\<in>set is. entry_ok plan j) tr1 out"
            by (rule Cons.IH)
          then have "settles env ?ok tr1 out"
            by (rule settles_weaken) simp
          with s1 c show ?thesis
            by (cases out) (auto intro: settles_seq)
        qed
      qed
    qed
  qed
qed

lemma write_chapters_settles:
  assumes "write_chapters env numChapters ws t storyline plan tr = Some out"
  shows "settles env ((\<forall>i<max 1 (nat numChapters). entry_ok plan i) \<and> printable (entry_at plan 0)) tr out"
proof -
  let ?plan = plan
  let ?ok = "(\<forall>i<max 1 (nat numChapters). entry_ok ?plan i) \<and> printable (entry_at ?plan 0)"
  show ?thesis
  proof (cases "property_at ?plan 0")
    case (Inl e)
    with assms have out: "out = (Inl e, tr)" by (simp add: write_chapters_def)
    from Inl have e: "e = TypeError" by (rule property_at_error)
    from Inl have "\<not> entry_ok ?plan 0" by (simp add: entry_ok_def)
    moreover have "0 < max 1 (nat numChapters)" by simp
    ultimately have "\<not> ?ok" by blast
    then have "settles env ?ok tr (Inl TypeError :: error + novel_result, tr)"
      by (rule settles_own_error)
    with out e show ?thesis by simp
  next
    case entry: (Inr entry)
    obtain r1 tr1 where first: "writeFirstChapter env storyline entry ws tr = (r1, tr1)"
      by (cases "writeFirstChapter env storyline entry ws tr")
    from entry have "entry_at ?plan 0 = entry" by (simp add: entry_at_def)
    then have "settles env ?ok tr (writeFirstChapter env storyline entry ws tr)"
      by (intro writeFirstChapter_settles) simp
    then have s1: "settles env ?ok tr (r1, tr1)"
      using first by simp
    show ?thesis
    proof (cases r1)
      case (Inl e)
      with assms entry first have "out = (Inl e, tr1)" by (simp add: write_chapters_def)
      with s1 Inl show ?thesis by (auto intro: settles_error_type)
    next
      case fc: (Inr fc)
      show ?thesis
      proof (cases "object_keys entry")
        case (Inl e)
        with assms entry first fc have "out = (Inl e, tr1)" by (simp add: write_chapters_def)
        from Inl have "e = TypeError" by (rule object_keys_error)
        from Inl entry have "\<not> entry_ok ?plan 0" by (simp add: entry_ok_def)
        moreover have "0 < max 1 (nat numChapters)" by simp
        ultimately have "\<not> ?ok" by blast
        then have "settles env ?ok tr1 (Inl TypeError :: error + novel_result, tr1)"
          by (rule settles_own_error)
        with s1 fc have "settles env ?ok tr (Inl TypeError :: error + novel_result, tr1)"
          by (auto intro: settles_seq)
        with \<open>out = (Inl e, tr1)\<close> \<open>e = TypeError\<close> show ?thesis by simp
      next
        case ks: (Inr ks)
        let ?loop = "chapter_loop env storyline ?plan [1..<nat numChapters]
          (''Storyline:\<newline>'' @ storyline @ ''\<newline>\<newline>'' @ chapter_block 1 fc, [fc], [(first_key ks, fc)]) tr1"
        from assms entry first fc ks have run:
          "(case ?loop of None \<Rightarrow> None
            | Some (Inl e, tr'') \<Rightarrow> Some (Inl e, tr'')
            | Some (Inr (nov', chs, objs), tr'') \<Rightarrow>
                Some (Inr \<lparr>novel = nov', title = t, chapters = chs, chapterObjects = objs\<rparr>, tr''))
           = Some out"
          by (simp add: write_chapters_def)
        show ?thesis
        proof (cases ?loop)
          case None
          with run show ?thesis by simp
        next
          case (Some out2)
          obtain r2 tr2 where out2: "out2 = (r2, tr2)" by (cases out2)
          from chapter_loop_settles [OF Some]
          have "settles env (\<forall>i\<in>set [1..<nat numChapters]. entry_ok ?plan i) tr1 out2" .
          then have "settles env ?ok tr1 (r2, tr2)"
            unfolding out2 by (rule settles_weaken) (auto simp: max_def)
          with s1 fc have s2: "settles env ?ok tr (r2, tr2)"
            by (auto intro: settles_seq)
          show ?thesis
          proof (cases r2)
            case (Inl e)
            with run Some out2 have "out = (Inl e, tr2)" by simp
            with s2 Inl show ?thesis by (auto intro: settles_error_type)
          next
            case (Inr st)
            obtain nov' chs objs where st: "st = (nov', chs, objs)" by (cases st)
            with run Some out2 Inr
            have "out = (Inr \<lparr>novel = nov', title = t, chapters = chs, chapterObjects = objs\<rparr>, tr2)"
              by simp
            with s2 Inr show ?thesis by (simp add: settles_def)
          qed
        qed
      qed
    qed
  qed
qed

lemma fallback_plan_error: "fallback_plan numChapters = Inl e \<Longrightarrow> e = RangeError"
  by (simp add: fallback_plan_def split: if_splits)

lemma parse_plan_error: "parse_plan env storyline numChapters = Inl e \<Longrightarrow> e = RangeError"
  by (auto simp: parse_plan_def split: option.splits dest: fallback_plan_error)

lemma chapter_stages_settles:
  assumes "chapter_stages env numChapters ws t storyline tr = Some out"
  shows "settles env (\<exists>plan. parse_plan env storyline numChapters = Inr plan
            \<and> (\<forall>i<max 1 (nat numChapters). entry_ok plan i) \<and> printable (entry_at plan 0)) tr out"
proof (cases "parse_plan env storyline numChapters")
  case (Inl e)
  with assms have "out = (Inl e, tr)" by (simp add: chapter_stages_def)
  moreover from Inl have "e = RangeError" by (rule parse_plan_error)
  ultimately show ?thesis using Inl by (simp add: settles_range_error)
next
  case (Inr plan)
  with assms have "write_chapters env numChapters ws t storyline plan tr = Some out"
    by (simp add: chapter_stages_def)
  then show ?thesis
    by (rule write_chapters_settles [THEN settles_weaken]) (simp add: Inr)
qed

lemma writeFantasyNovel_settles:
  assumes "writeFantasyNovel env prompt numChapters ws tr = Some out"
  shows "settles env False tr out"
proof -
  obtain r1 tr1 where front: "storyline_stages env prompt numChapters tr = (r1, tr1)"
    by (cases "storyline_stages env prompt numChapters tr")
  have s1: "settles env False tr (r1, tr1)"
    using storyline_stages_settles [of env False tr prompt numChapters] front by simp
  show ?thesis
  proof (cases r1)
    case (Inl e)
    with assms front have "out = (Inl e, tr1)" by (simp add: writeFantasyNovel_def)
    with s1 Inl show ?thesis by (auto intro: settles_error_type)
  next
    case (Inr p)
    obtain t storyline where p: "p = (t, storyline)" by (cases p)
    with assms front Inr have "chapter_stages env numChapters ws t storyline tr1 = Some out"
      by (simp add: writeFantasyNovel_def)
    then have "settles env False tr1 out"
      by (rule chapter_stages_settles [THEN settles_weaken]) simp
    with s1 Inr show ?thesis
      by (cases out) (auto intro: settles_seq)
  qed
qed


lemma failed_call_last:
  assumes "settles env ok tr0 (out, tr)" and "length tr0 \<le> k" and "k < length tr"
    and "answered env tr k = Inl e"
  shows "k = length tr - 1 \<and> out = Inl e"
proof (cases out)
  case (Inr a)
  with assms(1) have "calls_ok env tr (length tr0) (length tr)" by (simp add: settles_def)
  with assms(2-4) show ?thesis by (auto simp: calls_ok_def)
next
  case (Inl e')
  with assms(1) consider
    "length tr0 < length tr" "calls_ok env tr (length tr0) (length tr - 1)"
      "answered env tr (length tr - 1) = Inl e'"
    | "calls_ok env tr (length tr0) (length tr)"
    by (auto simp: settles_def)
  then show ?thesis
  proof cases
    case 1
    have "k = length tr - 1"
    proof (rule ccontr)
      assume "k \<noteq> length tr - 1"
      with assms(3) have "k < length tr - 1" by simp
      with 1(2) assms(2) have "\<not> isl (answered env tr k)" by (simp add: calls_ok_def)
      with assms(4) show False by simp
    qed
    with 1(3) assms(4) Inl show ?thesis by simp
  next
    case 2
    with assms(2-4) show ?thesis by (auto simp: calls_ok_def)
  qed
qed

lemma callOllama_succeeds:
  assumes "\<forall>k req. \<exists>r. reply_of (service env k req) = Inr r"
  shows "\<exists>r tr1. callOllama env p tr = (Inr r, tr1)"
proof -
  from assms obtain r where "reply_of (service env (length tr) (ollama_request env p)) = Inr r"
    by blast
  then show ?thesis by (simp add: callOllama_def Let_def)
qed

lemma return_succeeds: "\<exists>b tr2. return a tr = (Inr b, tr2)"
  by (simp add: return_def)

lemma await_succeeds:
  assumes "\<exists>a tr1. m tr = (Inr a, tr1)" and "\<And>a tr1. \<exists>b tr2. f a tr1 = (Inr b, tr2)"
  shows "\<exists>b tr2. await m f tr = (Inr b, tr2)"
proof -
  from assms(1) obtain a tr1 where "m tr = (Inr a, tr1)" by blast
  then have "await m f tr = f a tr1" by (simp add: await_def)
  with assms(2) [of a tr1] show ?thesis by simp
qed

lemma storyline_stages_total:
  assumes "\<forall>k req. \<exists>r. reply_of (service env k req) = Inr r"
  shows "\<exists>t storyline tr1. storyline_stages env prompt numChapters tr = (Inr (t, storyline), tr1)"
proof -
  have "\<exists>b tr2. storyline_stages env prompt numChapters tr = (Inr b, tr2)"
    unfolding storyline_stages_def generatePlots_def selectMostEngaging_def improvePlot_def
      getTitle_def generateStoryline_def
    by (intro await_succeeds callOllama_succeeds return_succeeds assms)
  then show ?thesis by auto
qed

lemma writeFirstChapter_total:
  assumes "\<forall>k req. \<exists>r. reply_of (service env k req) = Inr r"
    and "printable entry"
  shows "\<exists>fc tr1. writeFirstChapter env plot entry ws tr = (Inr fc, tr1)"
proof -
  from printable_prompt [OF assms(2)] obtain promptText where
    "firstChapter_prompt plot entry ws = Inr promptText"
    by blast
  moreover have "\<exists>fc tr1. await (callOllama env promptText)
      (\<lambda>firstDraft. callOllama env (firstChapter_improvePrompt plot firstDraft ws)) tr = (Inr fc, tr1)"
    by (intro await_succeeds callOllama_succeeds assms(1))
  ultimately show ?thesis by (simp add: writeFirstChapter_def)
qed

lemma writeChapter_total:
  assumes ok: "\<forall>k req. \<exists>r. reply_of (service env k req) = Inr r"
    and long: "\<forall>k req. \<exists>j. \<forall>r. reply_of (service env (k + j) req) = Inr r \<longrightarrow> 1000 \<le> length r"
    and keys: "object_keys ct = Inr ks"
  shows "\<exists>r tr'. writeChapter env prev plot ct tr = Some (Inr r, tr')"
proof -
  let ?req = "ollama_request env (chapter_prompt prev plot ct)"
  let ?long = "\<lambda>j. \<forall>r. reply_of (service env (length tr + j) ?req) = Inr r \<longrightarrow> 1000 \<le> length r"
  from long have ex: "\<exists>j. ?long j" by blast
  define a where "a = (LEAST j. ?long j)"
  from ex have la: "?long a"
    unfolding a_def by (rule LeastI_ex)
  have short: "\<forall>j<a. \<exists>r'. reply_of (service env (length tr + j) ?req) = Inr r' \<and> length r' < 1000"
  proof (intro allI impI)
    fix j assume "j < a"
    then have "\<not> ?long j"
      unfolding a_def by (rule not_less_Least)
    then show "\<exists>r'. reply_of (service env (length tr + j) ?req) = Inr r' \<and> length r' < 1000"
      by (auto simp: not_le)
  qed
  from ok obtain r where r: "reply_of (service env (length tr + a) ?req) = Inr r"
    by blast
  with la have "1000 \<le> length r" by blast
  from writeChapter_accepts [OF keys short r this] show ?thesis by blast
qed

lemma writeChapter_never:
  assumes short: "\<forall>k req. \<exists>r. reply_of (service env k req) = Inr r \<and> length r < 1000"
    and keys: "object_keys ct = Inr ks"
  shows "writeChapter env prev plot ct tr = None"
proof (cases "writeChapter env prev plot ct tr")
  case None
  then show ?thesis .
next
  case (Some out)
  obtain res tr' where out: "out = (res, tr')" by (cases out)
  show ?thesis
  proof (cases res)
    case (Inr r)
    with Some out have "writeChapter env prev plot ct tr = Some (Inr r, tr')" by simp
    from writeChapter_returns [OF this] obtain a where
      "reply_of (service env (length tr + a) (ollama_request env (chapter_prompt prev plot ct))) = Inr r"
      "1000 \<le> length r"
      by blast
    with short show ?thesis
      by (metis Inr_inject not_le)
  next
    case (Inl e)
    from writeChapter_settles [OF Some] out Inl keys
    have "answered env tr' (length tr' - 1) = Inl e"
      by (simp add: settles_def)
    with short show ?thesis
      by (metis answered_def sum.distinct(1))
  qed
qed

lemma chapter_loop_total:
  assumes ok: "\<forall>k req. \<exists>r. reply_of (service env k req) = Inr r"
    and long: "\<forall>k req. \<exists>j. \<forall>r. reply_of (service env (k + j) req) = Inr r \<longrightarrow> 1000 \<le> length r"
    and entries: "\<forall>i\<in>set is. entry_ok plan i"
  shows "\<exists>st' tr'. chapter_loop env storyline plan is st tr = Some (Inr st', tr')"
  using entries
proof (induction "is" arbitrary: st tr)
  case Nil
  show ?case by (cases st) auto
next
  case (Cons i "is")
  obtain nov chs objs where st: "st = (nov, chs, objs)" by (cases st)
  from Cons.prems have "entry_ok plan i" by simp
  then obtain entry ks where entry: "property_at plan i = Inr entry" and ks: "object_keys entry = Inr ks"
    by (auto simp: entry_ok_def split: sum.splits)
  from writeChapter_total [OF ok long ks] obtain c tr1 where
    wc: "writeChapter env nov storyline entry tr = Some (Inr c, tr1)"
    by blast
  from Cons.prems have "\<forall>i\<in>set is. entry_ok plan i" by simp
  from Cons.IH [OF this] obtain st' tr' where
    "chapter_loop env storyline plan is
       (nov @ chapter_block (i + 1) c, chs @ [c], objs @ [(first_key ks, c)]) tr1 = Some (Inr st', tr')"
    by blast
  with st entry ks wc have "chapter_loop env storyline plan (i # is) st tr = Some (Inr st', tr')"
    by simp
  then show ?case by blast
qed

lemma chapter_loop_type_error:
  assumes ok: "\<forall>k req. \<exists>r. reply_of (service env k req) = Inr r"
    and long: "\<forall>k req. \<exists>j. \<forall>r. reply_of (service env (k + j) req) = Inr r \<longrightarrow> 1000 \<le> length r"
    and entries: "\<exists>i\<in>set is. \<not> entry_ok plan i"
  shows "\<exists>tr'. chapter_loop env storyline plan is st tr = Some (Inl TypeError, tr')"
  using entries
proof (induction "is" arbitrary: st tr)
  case Nil
  then show ?case by simp
next
  case (Cons i "is")
  obtain nov chs objs where st: "st = (nov, chs, objs)" by (cases st)
  show ?case
  proof (cases "property_at plan i")
    case (Inl e)
    moreover from Inl have "e = TypeError" by (rule property_at_error)
    ultimately show ?thesis using st by simp
  next
    case entry: (Inr entry)
    show ?thesis
    proof (cases "object_keys entry")
      case (Inl e)
      then have e: "e = TypeError" by (rule object_keys_error)
      from writeChapter_bad_entry [OF Inl]
      have "writeChapter env nov storyline entry tr = Some (Inl e, tr)" .
      with st entry e show ?thesis by simp
    next
      case ks: (Inr ks)
      with entry have "entry_ok plan i" by (simp add: entry_ok_def)
      with Cons.prems have "\<exists>i\<in>set is. \<not> entry_ok plan i" by simp
      from writeChapter_total [OF ok long ks] obtain c tr1 where
        wc: "writeChapter env nov storyline entry tr = Some (Inr c, tr1)"
        by blast
      from Cons.IH [OF \<open>\<exists>i\<in>set is. \<not> entry_ok plan i\<close>] obtain tr' where
        "chapter_loop env storyline plan is
           (nov @ chapter_block (i + 1) c, chs @ [c], objs @ [(first_key ks, c)]) tr1
           = Some (Inl TypeError, tr')"
        by blast
      with st entry ks wc show ?thesis by simp
    qed
  qed
qed

lemma write_chapters_total:
  assumes ok: "\<forall>k req. \<exists>r. reply_of (service env k req) = Inr r"
    and long: "\<forall>k req. \<exists>j. \<forall>r. reply_of (service env (k + j) req) = Inr r \<longrightarrow> 1000 \<le> length r"
    and entries: "\<forall>i<max 1 (nat numChapters). entry_ok plan i"
    and prints: "printable (entry_at plan 0)"
  shows "\<exists>res tr'. write_chapters env numChapters ws t storyline plan tr = Some (Inr res, tr')"
proof -
  let ?plan = plan
  from entries have "entry_ok ?plan 0" by simp
  then obtain entry ks where entry: "property_at ?plan 0 = Inr entry" and ks: "object_keys entry = Inr ks"
    by (auto simp: entry_ok_def split: sum.splits)
  from entry prints have "printable entry" by (simp add: entry_at_def)
  from writeFirstChapter_total [OF ok this] obtain fc tr1 where
    first: "writeFirstChapter env storyline entry ws tr = (Inr fc, tr1)"
    by blast
  from entries have "\<forall>i\<in>set [1..<nat numChapters]. entry_ok ?plan i"
    by (auto simp: max_def)
  from chapter_loop_total [OF ok long this] obtain st' tr' where
    "chapter_loop env storyline ?plan [1..<nat numChapters]
       (''Storyline:\<newline>'' @ storyline @ ''\<newline>\<newline>'' @ chapter_block 1 fc, [fc], [(first_key ks, fc)]) tr1
       = Some (Inr st', tr')"
    by blast
  with entry ks first
  have "write_chapters env numChapters ws t storyline plan tr
          = Some (Inr \<lparr>novel = fst st', title = t, chapters = fst (snd st'),
                        chapterObjects = snd (snd st')\<rparr>, tr')"
    by (cases st') (simp add: write_chapters_def)
  then show ?thesis by blast
qed

lemma write_chapters_type_error:
  assumes ok: "\<forall>k req. \<exists>r. reply_of (service env k req) = Inr r"
    and long: "\<forall>k req. \<exists>j. \<forall>r. reply_of (service env (k + j) req) = Inr r \<longrightarrow> 1000 \<le> length r"
    and entries: "(\<exists>i<max 1 (nat numChapters). \<not> entry_ok plan i) \<or> \<not> printable (entry_at plan 0)"
  shows "\<exists>tr'. write_chapters env numChapters ws t storyline plan tr = Some (Inl TypeError, tr')"
proof -
  let ?plan = plan
  show ?thesis
  proof (cases "property_at ?plan 0")
    case (Inl e)
    moreover from Inl have "e = TypeError" by (rule property_at_error)
    ultimately show ?thesis by (simp add: write_chapters_def)
  next
    case entry: (Inr entry)
    then have ea: "entry_at ?plan 0 = entry" by (simp add: entry_at_def)
    show ?thesis
    proof (cases "printable entry")
      case False
      from writeFirstChapter_unprintable [OF this]
      have "writeFirstChapter env storyline entry ws tr = (Inl TypeError, tr)" .
      with entry show ?thesis by (simp add: write_chapters_def)
    next
      case True
      from writeFirstChapter_total [OF ok True] obtain fc tr1 where
        first: "writeFirstChapter env storyline entry ws tr = (Inr fc, tr1)"
        by blast
      show ?thesis
      proof (cases "object_keys entry")
        case (Inl e)
        moreover from Inl have "e = TypeError" by (rule object_keys_error)
        ultimately show ?thesis using entry first by (simp add: write_chapters_def)
      next
        case ks: (Inr ks)
        with entry have "entry_ok ?plan 0" by (simp add: entry_ok_def)
        with entries True ea obtain i where "i < max 1 (nat numChapters)" "\<not> entry_ok ?plan i" "i \<noteq> 0"
          by metis
        then have "\<exists>i\<in>set [1..<nat numChapters]. \<not> entry_ok ?plan i"
          by (auto simp: max_def split: if_splits)
        from chapter_loop_type_error [OF ok long this] obtain tr' where
          "chapter_loop env storyline ?plan [1..<nat numChapters]
             (''Storyline:\<newline>'' @ storyline @ ''\<newline>\<newline>'' @ chapter_block 1 fc, [fc], [(first_key ks, fc)]) tr1
             = Some (Inl TypeError, tr')"
          by blast
        with entry ks first show ?thesis
          by (simp add: write_chapters_def)
      qed
    qed
  qed
qed


lemma chapter_stages_total:
  assumes ok: "\<forall>k req. \<exists>r. reply_of (service env k req) = Inr r"
    and long: "\<forall>k req. \<exists>j. \<forall>r. reply_of (service env (k + j) req) = Inr r \<longrightarrow> 1000 \<le> length r"
    and plan: "parse_plan env storyline numChapters = Inr plan"
    and entries: "\<forall>i<max 1 (nat numChapters). entry_ok plan i"
    and prints: "printable (entry_at plan 0)"
  shows "\<exists>res tr'. chapter_stages env numChapters ws t storyline tr = Some (Inr res, tr')"
  using write_chapters_total [OF ok long entries prints] by (simp add: chapter_stages_plan [OF plan])

lemma chapter_stages_type_error:
  assumes ok: "\<forall>k req. \<exists>r. reply_of (service env k req) = Inr r"
    and long: "\<forall>k req. \<exists>j. \<forall>r. reply_of (service env (k + j) req) = Inr r \<longrightarrow> 1000 \<le> length r"
    and plan: "parse_plan env storyline numChapters = Inr plan"
    and entries: "(\<exists>i<max 1 (nat numChapters). \<not> entry_ok plan i) \<or> \<not> printable (entry_at plan 0)"
  shows "\<exists>tr'. chapter_stages env numChapters ws t storyline tr = Some (Inl TypeError, tr')"
  using write_chapters_type_error [OF ok long entries] by (simp add: chapter_stages_plan [OF plan])

section \<open>The fallback plan\<close>

text \<open>
  Claim C3, as amended. When \<^verbatim>\<open>JSON.parse\<close> of the storyline text throws and the
  count is below \<open>2\<^sup>3\<^sup>2\<close>, the plan that is used has exactly \<open>numChapters\<close>
  entries (none when the count is negative), and for every \<open>i\<close> from 1 to
  \<open>numChapters\<close> entry \<open>i\<close> is the object with the single key
  \<^verbatim>\<open>Chapter i - Untitled\<close> and the value \<^verbatim>\<open>This is chapter i\<close>. From \<open>2\<^sup>3\<^sup>2\<close>
  on no plan is built: a \<^verbatim>\<open>RangeError\<close> is thrown.
\<close>

theorem fallback_plan_entries:
  assumes "json_parse env storyline = None"
  shows "(numChapters < 2 ^ 32 \<longrightarrow>
          (\<exists>entries. parse_plan env storyline numChapters = Inr (JArray entries)
             \<and> length entries = nat numChapters
             \<and> (\<forall>i. 1 \<le> i \<and> i \<le> nat numChapters \<longrightarrow>
                   entries ! (i - 1) =
                     JObject [(''Chapter '' @ string_of_nat i @ '' - Untitled'',
                               JString (''This is chapter '' @ string_of_nat i))])))
       \<and> (2 ^ 32 \<le> numChapters \<longrightarrow> parse_plan env storyline numChapters = Inl RangeError)"
proof (intro conjI impI)
  assume "2 ^ 32 \<le> numChapters"
  with assms show "parse_plan env storyline numChapters = Inl RangeError"
    by (simp add: parse_plan_def fallback_plan_def)
next
  assume small: "numChapters < 2 ^ 32"
  let ?entry = "\<lambda>i. JObject [(''Chapter '' @ string_of_nat (i + 1) @ '' - Untitled'',
                                JString (''This is chapter '' @ string_of_nat (i + 1)))]"
  let ?entries = "map ?entry [0..<nat numChapters]"
  have plan: "parse_plan env storyline numChapters = Inr (JArray ?entries)"
    using assms small by (simp add: parse_plan_def fallback_plan_def)
  have len: "length ?entries = nat numChapters"
    by simp
  have "?entries ! (i - 1) =
          JObject [(''Chapter '' @ string_of_nat i @ '' - Untitled'',
                    JString (''This is chapter '' @ string_of_nat i))]"
    if "1 \<le> i" "i \<le> nat numChapters" for i
  proof -
    from that have "i - 1 < nat numChapters" by arith
    then have "?entries ! (i - 1) = ?entry (i - 1)"
      by simp
    with that show ?thesis by simp
  qed
  with plan len show "\<exists>entries. parse_plan env storyline numChapters = Inr (JArray entries)
             \<and> length entries = nat numChapters
             \<and> (\<forall>i. 1 \<le> i \<and> i \<le> nat numChapters \<longrightarrow>
                   entries ! (i - 1) =
                     JObject [(''Chapter '' @ string_of_nat i @ '' - Untitled'',
                               JString (''This is chapter '' @ string_of_nat i))])"
    by blast
qed

theorem fallback_plan_entries_witness:
  "json_parse (demo_runtime (\<lambda>s. None)) ''Once upon a time'' = None
   \<and> (2::int) < 2 ^ 32
   \<and> parse_plan (demo_runtime (\<lambda>s. None)) ''Once upon a time'' 2 =
       Inr (JArray [JObject [(''Chapter 1 - Untitled'', JString ''This is chapter 1'')],
                    JObject [(''Chapter 2 - Untitled'', JString ''This is chapter 2'')]])
   \<and> (2::int) ^ 32 \<le> 5000000000
   \<and> parse_plan (demo_runtime (\<lambda>s. None)) ''Once upon a time'' 5000000000 = Inl RangeError"
proof -
  have h: "json_parse (demo_runtime (\<lambda>s. None)) ''Once upon a time'' = None"
    by (simp add: demo_runtime_def scripted_runtime_def)
  from fallback_plan_entries [OF h, of 2]
  obtain entries where e: "parse_plan (demo_runtime (\<lambda>s. None)) ''Once upon a time'' 2 = Inr (JArray entries)"
    and l: "length entries = 2"
    and a: "\<forall>i. 1 \<le> i \<and> i \<le> nat 2 \<longrightarrow>
                 entries ! (i - 1) =
                   JObject [(''Chapter '' @ string_of_nat i @ '' - Untitled'',
                             JString (''This is chapter '' @ string_of_nat i))]"
    by auto
  from a have "entries ! 0 = JObject [(''Chapter '' @ string_of_nat 1 @ '' - Untitled'',
                             JString (''This is chapter '' @ string_of_nat 1))]"
    by (metis diff_self_eq_0 le_refl nat_numeral one_le_numeral)
  moreover from a have "entries ! 1 = JObject [(''Chapter '' @ string_of_nat 2 @ '' - Untitled'',
                             JString (''This is chapter '' @ string_of_nat 2))]"
    by (metis (no_types, lifting) diff_Suc_1 le_refl nat_numeral numeral_2_eq_2 one_le_numeral One_nat_def)
  moreover have "string_of_nat 1 = ''1''" "string_of_nat 2 = ''2''"
    by code_simp+
  moreover from l have "entries = [entries ! 0, entries ! 1]"
    by (cases entries; cases "tl entries"; cases "tl (tl entries)") auto
  moreover from fallback_plan_entries [OF h, of 5000000000]
  have "parse_plan (demo_runtime (\<lambda>s. None)) ''Once upon a time'' 5000000000 = Inl RangeError"
    by simp
  ultimately show ?thesis using h e by simp
qed

text \<open>
  The claim as stated fails for a count that is no array length: with the storyline
  text not parsing and \<open>2\<^sup>3\<^sup>2\<close> chapters asked for, \<^verbatim>\<open>Array.from\<close> throws and
  there is no plan.
\<close>

theorem fallback_plan_no_array_length:
  "json_parse fallback_runtime ''Once upon a time'' = None
   \<and> parse_plan fallback_runtime ''Once upon a time'' 4294967296 = Inl RangeError"
  by (simp add: parse_plan_def fallback_plan_def fallback_runtime_def demo_runtime_def
      scripted_runtime_def)

section \<open>Runs on the demonstration runtimes\<close>

lemma long_text_length: "length long_text = 1000"
  by (simp add: long_text_def)

lemma long_text_plain: "set long_text = {CHR ''a''}"
  by (simp add: long_text_def)

lemma long_text_parse: "parseOllamaResponse long_text = long_text"
proof -
  have "think_exec long_text = None"
    by (rule think_exec_plain) (simp add: long_text_plain)
  then have "parseOllamaResponse long_text = trim long_text"
    by (rule parse_no_segment)
  also have "\<dots> = long_text"
    by (simp add: trim_def long_text_def is_space_def dropWhile_replicate)
  finally show ?thesis .
qed

lemma long_text_extract: "extractJsonFromMarkdown long_text = long_text"
proof -
  have "\<not> sublist ''```json'' long_text"
  proof
    assume "sublist ''```json'' long_text"
    then have "set ''```json'' \<subseteq> set long_text"
      by (rule set_mono_sublist)
    then show False by (simp add: long_text_plain)
  qed
  then have "json_match long_text = None" by (rule json_match_None)
  then show ?thesis by (simp add: extractJsonFromMarkdown_def)
qed

lemma long_text_lines: "split_lines long_text = [long_text]"
proof -
  have "split_lines (replicate n (CHR ''a'')) = [replicate n (CHR ''a'')]" for n
    by (induction n) simp_all
  then show ?thesis by (simp add: long_text_def)
qed

lemma demo_reply: "reply_of (service (demo_runtime parse) k req) = Inr long_text"
  by (simp add: demo_runtime_def scripted_runtime_def long_text_parse)

lemma demo_succeeds: "\<forall>k req. \<exists>r. reply_of (service (demo_runtime parse) k req) = Inr r"
  by (simp add: demo_reply)

lemma demo_long:
  "\<forall>k req. \<exists>j. \<forall>r. reply_of (service (demo_runtime parse) (k + j) req) = Inr r \<longrightarrow> 1000 \<le> length r"
  by (simp add: demo_reply long_text_length)

lemma demo_storyline:
  "\<exists>tr1. storyline_stages (demo_runtime parse) prompt numChapters tr = (Inr (long_text, long_text), tr1)"
  by (simp add: storyline_stages_def generatePlots_def selectMostEngaging_def improvePlot_def
      getTitle_def generateStoryline_def await_def return_def callOllama_def demo_reply
      long_text_extract Let_def)

lemma writeFantasyNovel_cases:
  assumes "writeFantasyNovel env prompt numChapters ws tr = Some (Inr res, tr')"
  obtains t storyline tr1 where
    "storyline_stages env prompt numChapters tr = (Inr (t, storyline), tr1)"
    "chapter_stages env numChapters ws t storyline tr1 = Some (Inr res, tr')"
proof (cases "storyline_stages env prompt numChapters tr")
  case (Pair r1 tr1)
  show ?thesis
  proof (cases r1)
    case (Inl e)
    with assms Pair show ?thesis by (simp add: writeFantasyNovel_def)
  next
    case (Inr p)
    with assms Pair that show ?thesis by (cases p) (simp add: writeFantasyNovel_def)
  qed
qed

lemma writeFantasyNovel_chapters:
  assumes "storyline_stages env prompt numChapters tr = (Inr (t, storyline), tr1)"
  shows "writeFantasyNovel env prompt numChapters ws tr = chapter_stages env numChapters ws t storyline tr1"
  using assms by (simp add: writeFantasyNovel_def)

lemma unparsed_plan:
  "json_parse env storyline = None \<Longrightarrow> numChapters < 2 ^ 32 \<Longrightarrow>
     parse_plan env storyline numChapters = Inr (untitled_plan numChapters)"
  by (simp add: parse_plan_def fallback_plan_def untitled_plan_def)

lemma unparsed_plan_cases:
  assumes "json_parse env storyline = None" and "parse_plan env storyline numChapters = Inr plan"
  shows "numChapters < 2 ^ 32 \<and> plan = untitled_plan numChapters"
  using assms by (simp add: parse_plan_def fallback_plan_def untitled_plan_def split: if_splits)

lemma fallback_entry:
  "i < nat numChapters \<Longrightarrow>
     property_at (untitled_plan numChapters) i =
       Inr (Some (JObject [(''Chapter '' @ string_of_nat (i + 1) @ '' - Untitled'',
                            JString (''This is chapter '' @ string_of_nat (i + 1)))]))"
  by (simp add: untitled_plan_def)

lemma fallback_entry_ok: "i < nat numChapters \<Longrightarrow> entry_ok (untitled_plan numChapters) i"
  by (simp add: entry_ok_def fallback_entry)

lemma fallback_plan_key:
  "i < nat numChapters \<Longrightarrow>
     plan_key (untitled_plan numChapters) i = ''Chapter '' @ string_of_nat (i + 1) @ '' - Untitled''"
  by (simp add: plan_key_def entry_at_def fallback_entry)

lemma fallback_printable: "printable (entry_at (untitled_plan numChapters) 0)"
proof (cases "0 < nat numChapters")
  case True
  then show ?thesis by (simp add: printable_def entry_at_def fallback_entry)
next
  case False
  then show ?thesis by (simp add: printable_def entry_at_def untitled_plan_def)
qed

subsection \<open>The decimal rendering is injective\<close>

lemma digit_char_inj: "a < 10 \<Longrightarrow> b < 10 \<Longrightarrow> digit_char a = digit_char b \<Longrightarrow> a = b"
proof -
  assume a: "a < 10" and b: "b < 10" and eq: "digit_char a = digit_char b"
  from eq have "(of_char (digit_char a) :: nat) = of_char (digit_char b)" by simp
  then have "(48 + a) mod 256 = (48 + b) mod 256"
    by (simp add: digit_char_def)
  with a b show "a = b" by simp
qed

lemma string_of_nat_nonempty: "string_of_nat n \<noteq> []"
  by (subst string_of_nat.simps) (simp add: Let_def)

lemma string_of_nat_inj: "string_of_nat n = string_of_nat m \<Longrightarrow> n = m"
proof (induction n arbitrary: m rule: less_induct)
  case (less n)
  have n: "string_of_nat n =
      (if 10 \<le> n then string_of_nat (n div 10) @ [digit_char (n mod 10)] else [digit_char (n mod 10)])"
    by (subst string_of_nat.simps) (simp add: Let_def)
  have m: "string_of_nat m =
      (if 10 \<le> m then string_of_nat (m div 10) @ [digit_char (m mod 10)] else [digit_char (m mod 10)])"
    by (subst string_of_nat.simps) (simp add: Let_def)
  from less.prems n m have last: "digit_char (n mod 10) = digit_char (m mod 10)"
    by (auto split: if_splits)
  then have mod: "n mod 10 = m mod 10"
    by (intro digit_char_inj) simp_all
  show ?case
  proof (cases "10 \<le> n")
    case True
    show ?thesis
    proof (cases "10 \<le> m")
      case False
      with True less.prems n m show ?thesis
        by (simp add: string_of_nat_nonempty)
    next
      case m10: True
      with True less.prems n m have "string_of_nat (n div 10) = string_of_nat (m div 10)"
        by simp
      moreover from True have "n div 10 < n" by simp
      ultimately have "n div 10 = m div 10" by (rule less.IH [rotated])
      with mod show ?thesis by (metis div_mult_mod_eq)
    qed
  next
    case False
    show ?thesis
    proof (cases "10 \<le> m")
      case True
      with False less.prems n m show ?thesis
        by (simp add: string_of_nat_nonempty) (metis string_of_nat_nonempty)
    next
      case m10: False
      with False mod show ?thesis by simp
    qed
  qed
qed

lemma fallback_keys_distinct:
  "distinct (map (\<lambda>i. ''Chapter '' @ string_of_nat (i + 1) @ '' - Untitled'') [0..<n])"
  by (auto simp: distinct_map inj_on_def dest: string_of_nat_inj)


subsection \<open>Runs that complete, answers that are short\<close>

lemma runtime_completes:
  assumes "env = demo_runtime parse"
    and "parse_plan env long_text numChapters = Inr plan"
    and "\<forall>i<max 1 (nat numChapters). entry_ok plan i"
    and "printable (entry_at plan 0)"
  obtains res tr1 tr' where
    "storyline_stages env prompt numChapters tr = (Inr (long_text, long_text), tr1)"
    "writeFantasyNovel env prompt numChapters ws tr = Some (Inr res, tr')"
    "chapter_stages env numChapters ws long_text long_text tr1 = Some (Inr res, tr')"
proof -
  from demo_storyline assms(1) obtain tr1 where
    front: "storyline_stages env prompt numChapters tr = (Inr (long_text, long_text), tr1)"
    by blast
  from chapter_stages_total [OF demo_succeeds demo_long _ assms(3,4)] assms(1,2) obtain res tr' where
    "chapter_stages env numChapters ws long_text long_text tr1 = Some (Inr res, tr')"
    by blast
  with front that show ?thesis
    by (simp add: writeFantasyNovel_def)
qed

lemma twin_parse: "parse_plan twin_runtime long_text 2 = Inr twin_plan"
  by (simp add: parse_plan_def twin_runtime_def demo_runtime_def scripted_runtime_def)

lemma twin_entries: "\<forall>i<max 1 (nat 2). entry_ok twin_plan i"
  by (auto simp: twin_plan_def entry_ok_def less_Suc_eq numeral_2_eq_2)

lemma twin_printable: "printable (entry_at twin_plan 0)"
  by (simp add: printable_def entry_at_def twin_plan_def)

lemma fallback_parse: "parse_plan fallback_runtime long_text 2 = Inr (untitled_plan 2)"
  by (rule unparsed_plan) (simp_all add: fallback_runtime_def demo_runtime_def scripted_runtime_def)

lemma fallback_entries: "\<forall>i<max 1 (nat 2). entry_ok (untitled_plan 2) i"
  by (simp add: fallback_entry_ok)

lemma short_parse: "parseOllamaResponse ''Too short.'' = ''Too short.''"
  by (simp add: parseOllamaResponse_def think_loop.simps trim_def is_space_def)

lemma slow_reply:
  "reply_of (service (slow_runtime n) k req) = Inr (if k < n then ''Too short.'' else long_text)"
  by (simp add: slow_runtime_def scripted_runtime_def long_text_parse short_parse)

lemma slow_storyline:
  "\<exists>t storyline tr1. storyline_stages (slow_runtime 9) ''A lighthouse'' 2 [] = (Inr (t, storyline), tr1)
     \<and> json_parse (slow_runtime 9) storyline = None"
proof -
  have "\<forall>k req. \<exists>r. reply_of (service (slow_runtime 9) k req) = Inr r"
    by (simp add: slow_reply)
  from storyline_stages_total [OF this] obtain t storyline tr1 where
    "storyline_stages (slow_runtime 9) ''A lighthouse'' 2 [] = (Inr (t, storyline), tr1)"
    by blast
  moreover have "json_parse (slow_runtime 9) storyline = None"
    by (simp add: slow_runtime_def scripted_runtime_def)
  ultimately show ?thesis by blast
qed

lemma terse_reply: "reply_of (service terse_runtime k req) = Inr ''Too short.''"
  by (simp add: terse_runtime_def scripted_runtime_def short_parse)

lemmas run_defs = writeFantasyNovel_def storyline_stages_def generatePlots_def
  selectMostEngaging_def improvePlot_def getTitle_def generateStoryline_def
  chapter_stages_def write_chapters_def writeFirstChapter_def firstChapter_prompt_def
  await_def return_def callOllama_def
  failing_runtime_def scripted_runtime_def long_text_parse long_text_extract long_text_lines
  parse_plan_def fallback_plan_def Let_def

lemma entry_ok_array: "entry_ok (JArray xs) i \<longleftrightarrow> i < length xs \<and> xs ! i \<noteq> JNull"
proof (cases "i < length xs")
  case True
  then show ?thesis
    by (cases "xs ! i") (simp_all add: entry_ok_def)
next
  case False
  then show ?thesis by (simp add: entry_ok_def)
qed

lemma number_parse: "parse_plan number_runtime long_text 1 = Inr number_plan"
  by (simp add: parse_plan_def number_runtime_def demo_runtime_def scripted_runtime_def)

lemma number_entries: "\<forall>i<max 1 (nat 1). entry_ok number_plan i"
  by (simp add: number_plan_def entry_ok_def)

lemma number_printable: "printable (entry_at number_plan 0)"
  by (simp add: printable_def entry_at_def number_plan_def)

subsection \<open>The requests of the chapter loop, however it ends\<close>








lemma writeChapter_fails_after:
  assumes "object_keys ct = Inr ks"
    and "\<forall>j<a. \<exists>r'. reply_of (service env (length tr + j)
                   (ollama_request env (chapter_prompt prev plot ct))) = Inr r' \<and> length r' < 1000"
    and "reply_of (service env (length tr + a) (ollama_request env (chapter_prompt prev plot ct))) = Inl e"
  shows "writeChapter env prev plot ct tr =
           Some (Inl e, tr @ replicate (Suc a) (ollama_request env (chapter_prompt prev plot ct)))"
  using assms(2-)
proof (induction a arbitrary: tr)
  case 0
  then show ?case
    using assms(1) by (subst writeChapter.simps) (simp add: callOllama_def Let_def)
next
  case (Suc a)
  let ?req = "ollama_request env (chapter_prompt prev plot ct)"
  from Suc.prems(1) obtain r' where r': "reply_of (service env (length tr) ?req) = Inr r'" "length r' < 1000"
    by (metis add.right_neutral zero_less_Suc)
  have "writeChapter env prev plot ct (tr @ [?req]) = Some (Inl e, (tr @ [?req]) @ replicate (Suc a) ?req)"
  proof (rule Suc.IH)
    show "\<forall>j<a. \<exists>r'. reply_of (service env (length (tr @ [?req]) + j) ?req) = Inr r' \<and> length r' < 1000"
      using Suc.prems(1) by (metis Suc_less_eq add_Suc_shift length_append_singleton)
    show "reply_of (service env (length (tr @ [?req]) + a) ?req) = Inl e"
      using Suc.prems(2) by simp
  qed
  with r' show ?case
    using assms(1) by (subst writeChapter.simps) (simp add: callOllama_def Let_def replicate_append_same)
qed

lemma writeChapter_diverges:
  assumes "writeChapter env prev plot ct tr = None"
  shows "\<exists>r. reply_of (service env (length tr + j) (ollama_request env (chapter_prompt prev plot ct))) = Inr r
           \<and> length r < 1000"
proof (rule ccontr)
  let ?req = "ollama_request env (chapter_prompt prev plot ct)"
  let ?short = "\<lambda>j. \<exists>r. reply_of (service env (length tr + j) ?req) = Inr r \<and> length r < 1000"
  assume "\<not> ?short j"
  then have ex: "\<exists>j. \<not> ?short j" by blast
  define a where "a = (LEAST j. \<not> ?short j)"
  from ex have na: "\<not> ?short a"
    unfolding a_def by (rule LeastI_ex)
  have before: "\<forall>j<a. ?short j"
  proof (intro allI impI)
    fix j assume "j < a"
    then have "\<not> \<not> ?short j"
      unfolding a_def by (rule not_less_Least)
    then show "?short j" by simp
  qed
  from assms obtain ks where ks: "object_keys ct = Inr ks"
    by (cases "object_keys ct") (simp_all add: writeChapter.simps [of env prev plot ct tr])
  show False
  proof (cases "reply_of (service env (length tr + a) ?req)")
    case (Inl e)
    from writeChapter_fails_after [OF ks before Inl] assms show False by simp
  next
    case (Inr r)
    with na have "1000 \<le> length r" by (simp add: not_less)
    from writeChapter_accepts [OF ks before Inr this] assms show False by simp
  qed
qed

lemma chapter_loop_diverges:
  assumes "chapter_loop env storyline plan is st tr = None"
  shows "\<exists>prev entry tr'. writeChapter env prev storyline entry tr' = None"
  using assms
proof (induction "is" arbitrary: st tr)
  case Nil
  then show ?case by simp
next
  case (Cons i "is")
  obtain nov chs objs where st: "st = (nov, chs, objs)" by (cases st)
  show ?case
  proof (cases "property_at plan i")
    case (Inl e)
    with Cons.prems st show ?thesis by simp
  next
    case entry: (Inr entry)
    show ?thesis
    proof (cases "writeChapter env nov storyline entry tr")
      case None
      then show ?thesis by blast
    next
      case (Some out)
      obtain res tr1 where out: "out = (res, tr1)" by (cases out)
      show ?thesis
      proof (cases res)
        case (Inl e)
        with Cons.prems st entry Some out show ?thesis by simp
      next
        case c: (Inr c)
        show ?thesis
        proof (cases "object_keys entry")
          case (Inl e)
          with Cons.prems st entry Some out c show ?thesis by simp
        next
          case (Inr ks)
          with Cons.prems st entry Some out c
          have "chapter_loop env storyline plan is
                  (nov @ chapter_block (i + 1) c, chs @ [c], objs @ [(first_key ks, c)]) tr1 = None"
            by simp
          then show ?thesis by (rule Cons.IH)
        qed
      qed
    qed
  qed
qed

lemma writeFantasyNovel_diverges:
  assumes "writeFantasyNovel env prompt numChapters ws tr = None"
  shows "\<exists>n req. \<forall>j. \<exists>r. reply_of (service env (n + j) req) = Inr r \<and> length r < 1000"
proof -
  obtain r1 tr1 where front: "storyline_stages env prompt numChapters tr = (r1, tr1)"
    by (cases "storyline_stages env prompt numChapters tr")
  from assms front obtain t storyline where
    stages: "chapter_stages env numChapters ws t storyline tr1 = None"
    by (cases r1) (auto simp: writeFantasyNovel_def)
  then obtain plan where run: "write_chapters env numChapters ws t storyline plan tr1 = None"
    by (cases "parse_plan env storyline numChapters") (simp_all add: chapter_stages_def)
  have "\<exists>is st tr2. chapter_loop env storyline plan is st tr2 = None"
  proof (cases "property_at plan 0")
    case (Inl e)
    with run show ?thesis by (simp add: write_chapters_def)
  next
    case entry: (Inr entry)
    obtain r2 tr2 where first: "writeFirstChapter env storyline entry ws tr1 = (r2, tr2)"
      by (cases "writeFirstChapter env storyline entry ws tr1")
    show ?thesis
    proof (cases r2)
      case (Inl e)
      with run entry first show ?thesis by (simp add: write_chapters_def)
    next
      case fc: (Inr fc)
      show ?thesis
      proof (cases "object_keys entry")
        case (Inl e)
        with run entry first fc show ?thesis by (simp add: write_chapters_def)
      next
        case (Inr ks)
        let ?loop = "chapter_loop env storyline plan [1..<nat numChapters]
          (''Storyline:\<newline>'' @ storyline @ ''\<newline>\<newline>'' @ chapter_block 1 fc, [fc], [(first_key ks, fc)]) tr2"
        from run entry first fc Inr have "?loop = None"
          by (cases ?loop) (auto simp: write_chapters_def split: prod.splits sum.splits)
        then show ?thesis by blast
      qed
    qed
  qed
  then obtain prev entry tr' where "writeChapter env prev storyline entry tr' = None"
    using chapter_loop_diverges by blast
  from writeChapter_diverges [OF this] show ?thesis by blast
qed

lemma main_diverges:
  assumes "main env prompt numChapters ws = None"
  shows "\<exists>n req. \<forall>j. \<exists>r. reply_of (service env (n + j) req) = Inr r \<and> length r < 1000"
proof -
  from assms have "writeFantasyNovel env prompt numChapters ws [] = None"
    by (auto simp: main_def Let_def split: option.splits prod.splits sum.splits)
  then show ?thesis by (rule writeFantasyNovel_diverges)
qed

lemma terse_never_returns:
  "writeFantasyNovel terse_runtime ''A lighthouse'' 2 ''plain'' [] = None"
proof -
  have ok: "\<forall>k req. \<exists>r. reply_of (service terse_runtime k req) = Inr r"
    by (simp add: terse_reply)
  have short: "\<forall>k req. \<exists>r. reply_of (service terse_runtime k req) = Inr r \<and> length r < 1000"
    by (simp add: terse_reply)
  from storyline_stages_total [OF ok] obtain t storyline tr1 where
    front: "storyline_stages terse_runtime ''A lighthouse'' 2 [] = (Inr (t, storyline), tr1)"
    by blast
  have plan: "parse_plan terse_runtime storyline 2 = Inr (untitled_plan 2)"
    by (rule unparsed_plan) (simp_all add: terse_runtime_def scripted_runtime_def)
  have "printable (Some (JObject [(''Chapter '' @ string_of_nat (0 + 1) @ '' - Untitled'',
                               JString (''This is chapter '' @ string_of_nat (0 + 1)))]))"
    by (simp add: printable_def)
  from writeFirstChapter_total [OF ok this] obtain fc tr2 where
    first: "writeFirstChapter terse_runtime storyline
              (Some (JObject [(''Chapter '' @ string_of_nat (0 + 1) @ '' - Untitled'',
                               JString (''This is chapter '' @ string_of_nat (0 + 1)))])) ''plain'' tr1
            = (Inr fc, tr2)"
    by blast
  have never: "writeChapter terse_runtime prev storyline
              (Some (JObject [(''Chapter '' @ string_of_nat (1 + 1) @ '' - Untitled'',
                               JString (''This is chapter '' @ string_of_nat (1 + 1)))])) tr2 = None" for prev
    by (rule writeChapter_never [OF short]) simp
  have "chapter_stages terse_runtime 2 ''plain'' t storyline tr1 = None"
    using first never
    by (simp add: chapter_stages_def write_chapters_def plan fallback_entry upt_conv_Cons numeral_2_eq_2)
  with front show ?thesis
    by (simp add: writeFantasyNovel_def)
qed

section \<open>The retry of a short chapter\<close>

text \<open>
  Claim C5. When \<^verbatim>\<open>writeChapter\<close> returns a text, the text has at least 1000
  characters and is the answer to the last of \<open>a + 1\<close> identical requests, the
  \<open>a\<close> answers before it all being shorter than 1000 characters; conversely, for
  every number \<open>n\<close> of short answers followed by a long one, it sends \<open>n + 1\<close>
  identical requests and returns the long answer. In the result of
  \<^verbatim>\<open>writeFantasyNovel\<close> every chapter after the first has at least 1000 characters
  and is the text of its chapter record, so no short draft is recorded.
\<close>

theorem writeChapter_retry:
  "(writeChapter env prev plot entry tr = Some (Inr r, tr') \<longrightarrow>
      1000 \<le> length r
      \<and> (\<exists>a. tr' = tr @ replicate (Suc a) (ollama_request env (chapter_prompt prev plot entry))
            \<and> reply_of (service env (length tr + a)
                 (ollama_request env (chapter_prompt prev plot entry))) = Inr r
            \<and> (\<forall>j<a. \<exists>r'. reply_of (service env (length tr + j)
                 (ollama_request env (chapter_prompt prev plot entry))) = Inr r'
                 \<and> length r' < 1000)))
   \<and> (object_keys entryB = Inr ks
       \<and> (\<forall>j<n. \<exists>r'. reply_of (service env (length trB + j)
              (ollama_request env (chapter_prompt prevB plotB entryB))) = Inr r' \<and> length r' < 1000)
       \<and> reply_of (service env (length trB + n)
              (ollama_request env (chapter_prompt prevB plotB entryB))) = Inr rB
       \<and> 1000 \<le> length rB \<longrightarrow>
       writeChapter env prevB plotB entryB trB =
         Some (Inr rB, trB @ replicate (Suc n) (ollama_request env (chapter_prompt prevB plotB entryB))))
   \<and> (writeFantasyNovel env prompt numChapters ws trS = Some (Inr res, trE) \<longrightarrow>
       (\<forall>i. 1 \<le> i \<and> i < length (chapters res) \<longrightarrow>
          1000 \<le> length (chapters res ! i) \<and> snd (chapterObjects res ! i) = chapters res ! i))"
proof (intro conjI impI)
  assume run: "writeChapter env prev plot entry tr = Some (Inr r, tr')"
  from writeChapter_returns [OF run] show "1000 \<le> length r" by blast
  from writeChapter_returns [OF run]
  show "\<exists>a. tr' = tr @ replicate (Suc a) (ollama_request env (chapter_prompt prev plot entry))
            \<and> reply_of (service env (length tr + a)
                 (ollama_request env (chapter_prompt prev plot entry))) = Inr r
            \<and> (\<forall>j<a. \<exists>r'. reply_of (service env (length tr + j)
                 (ollama_request env (chapter_prompt prev plot entry))) = Inr r'
                 \<and> length r' < 1000)"
    by blast
next
  assume "object_keys entryB = Inr ks
       \<and> (\<forall>j<n. \<exists>r'. reply_of (service env (length trB + j)
              (ollama_request env (chapter_prompt prevB plotB entryB))) = Inr r' \<and> length r' < 1000)
       \<and> reply_of (service env (length trB + n)
              (ollama_request env (chapter_prompt prevB plotB entryB))) = Inr rB
       \<and> 1000 \<le> length rB"
  then show "writeChapter env prevB plotB entryB trB =
         Some (Inr rB, trB @ replicate (Suc n) (ollama_request env (chapter_prompt prevB plotB entryB)))"
    by (intro writeChapter_accepts) simp_all
next
  assume "writeFantasyNovel env prompt numChapters ws trS = Some (Inr res, trE)"
  then obtain t storyline tr where
    "chapter_stages env numChapters ws t storyline tr = Some (Inr res, trE)"
    by (rule writeFantasyNovel_cases)
  from chapter_stages_returns [OF this] obtain plan where
    len: "length (chapters res) = max 1 (nat numChapters)"
    and objs: "chapterObjects res =
           map (\<lambda>i. (plan_key plan i, chapters res ! i)) [0..<max 1 (nat numChapters)]"
    and long: "\<forall>i. 1 \<le> i \<and> i < nat numChapters \<longrightarrow> 1000 \<le> length (chapters res ! i)"
    by blast
  show "\<forall>i. 1 \<le> i \<and> i < length (chapters res) \<longrightarrow>
          1000 \<le> length (chapters res ! i) \<and> snd (chapterObjects res ! i) = chapters res ! i"
  proof (intro allI impI)
    fix i assume i: "1 \<le> i \<and> i < length (chapters res)"
    with len have "i < nat numChapters" "i < max 1 (nat numChapters)"
      by (auto simp: max_def split: if_splits)
    with i long objs show "1000 \<le> length (chapters res ! i) \<and> snd (chapterObjects res ! i) = chapters res ! i"
      by simp
  qed
qed


theorem writeChapter_retry_witness:
  "writeChapter (slow_runtime 1) ''Storyline'' ''plot''
       (Some (JObject [(''Chapter 2 - Untitled'', JString ''This is chapter 2'')])) []
     = Some (Inr long_text,
         replicate 2 (ollama_request (slow_runtime 1) (chapter_prompt ''Storyline'' ''plot''
           (Some (JObject [(''Chapter 2 - Untitled'', JString ''This is chapter 2'')])))))
   \<and> 1000 \<le> length long_text
   \<and> (\<exists>res tr1. writeFantasyNovel (demo_runtime (\<lambda>s. None)) ''A lighthouse'' 2 ''plain'' []
                    = Some (Inr res, tr1)
         \<and> 1000 \<le> length (chapters res ! 1) \<and> snd (chapterObjects res ! 1) = chapters res ! 1)"
proof -
  let ?R = "slow_runtime 1"
  let ?E = "Some (JObject [(''Chapter 2 - Untitled'', JString ''This is chapter 2'')])"
  let ?req = "ollama_request ?R (chapter_prompt ''Storyline'' ''plot'' ?E)"
  have short: "reply_of (service ?R 0 req) = Inr ''Too short.''" for req
    by (simp add: slow_runtime_def scripted_runtime_def parseOllamaResponse_def think_loop.simps
        trim_def is_space_def)
  have long: "reply_of (service ?R 1 req) = Inr long_text" for req
    by (simp add: slow_runtime_def scripted_runtime_def long_text_parse)
  have run: "writeChapter ?R ''Storyline'' ''plot'' ?E [] = Some (Inr long_text, replicate 2 ?req)"
    using writeChapter_retry [where env = ?R and entryB = ?E and ks = "[''Chapter 2 - Untitled'']"
        and n = 1 and trB = "[]" and prevB = "''Storyline''" and plotB = "''plot''"
        and rB = long_text] short long
    by (simp add: long_text_length numeral_2_eq_2)
  have len: "1000 \<le> length long_text"
    using writeChapter_retry [where env = ?R and prev = "''Storyline''" and plot = "''plot''"
        and entry = ?E and tr = "[]" and r = long_text and tr' = "replicate 2 ?req"] run
    by blast
  obtain res tr0 tr1 where
    novel: "writeFantasyNovel (demo_runtime (\<lambda>s. None)) ''A lighthouse'' 2 ''plain'' [] = Some (Inr res, tr1)"
    and stages: "chapter_stages (demo_runtime (\<lambda>s. None)) 2 ''plain'' long_text long_text tr0
                   = Some (Inr res, tr1)"
    using runtime_completes [OF refl fallback_parse [unfolded fallback_runtime_def]
        fallback_entries fallback_printable]
    by metis
  from chapter_stages_returns [OF stages] have "length (chapters res) = 2"
    by auto
  with writeChapter_retry [where env = "demo_runtime (\<lambda>s. None)" and prompt = "''A lighthouse''"
      and numChapters = 2 and ws = "''plain''" and trS = "[]" and res = res and trE = tr1] novel
  have "1000 \<le> length (chapters res ! 1) \<and> snd (chapterObjects res ! 1) = chapters res ! 1"
    by simp
  with novel run len show ?thesis by blast
qed

section \<open>The chapter records\<close>

text \<open>
  Claim C2, as amended. For every requested count \<open>N \<ge> 1\<close>, a run of
  \<^verbatim>\<open>writeFantasyNovel\<close> that returns gives exactly \<open>N\<close> chapter records, in the order
  of the plan; record \<open>i\<close> is keyed by the first key of plan entry \<open>i\<close> (by
  \<^verbatim>\<open>undefined\<close> when the entry has no key) and holds the text of chapter \<open>i\<close>. The
  keys are those of the plan: distinct when the plan is the fallback plan, repeated
  when the parsed plan repeats a key.
\<close>

theorem chapter_records:
  "writeFantasyNovel env prompt numChapters ws tr = Some (Inr res, tr') \<and> 1 \<le> numChapters \<longrightarrow>
     length (chapterObjects res) = nat numChapters
     \<and> (\<exists>t storyline tr1 plan.
           storyline_stages env prompt numChapters tr = (Inr (t, storyline), tr1)
           \<and> parse_plan env storyline numChapters = Inr plan
           \<and> map fst (chapterObjects res) = map (plan_key plan) [0..<nat numChapters]
           \<and> map snd (chapterObjects res) = chapters res
           \<and> (json_parse env storyline = None \<longrightarrow> distinct (map fst (chapterObjects res))))"
proof (intro impI)
  assume "writeFantasyNovel env prompt numChapters ws tr = Some (Inr res, tr') \<and> 1 \<le> numChapters"
  then have run: "writeFantasyNovel env prompt numChapters ws tr = Some (Inr res, tr')"
    and n: "max 1 (nat numChapters) = nat numChapters"
    by auto
  from run obtain t storyline tr1 where
    front: "storyline_stages env prompt numChapters tr = (Inr (t, storyline), tr1)" and
    stages: "chapter_stages env numChapters ws t storyline tr1 = Some (Inr res, tr')"
    by (rule writeFantasyNovel_cases)
  from chapter_stages_returns [OF stages] n obtain plan where
    plan: "parse_plan env storyline numChapters = Inr plan"
    and len: "length (chapters res) = nat numChapters"
    and objs: "chapterObjects res = map (\<lambda>i. (plan_key plan i, chapters res ! i)) [0..<nat numChapters]"
    by auto
  from objs have keys: "map fst (chapterObjects res) = map (plan_key plan) [0..<nat numChapters]"
    by (simp add: comp_def)
  from objs have "map snd (chapterObjects res) = map (\<lambda>i. chapters res ! i) [0..<nat numChapters]"
    by (simp add: comp_def)
  also have "\<dots> = chapters res"
    using map_nth [of "chapters res"] by (simp only: len)
  finally have texts: "map snd (chapterObjects res) = chapters res" .
  have "distinct (map fst (chapterObjects res))" if "json_parse env storyline = None"
  proof -
    from unparsed_plan_cases [OF that plan] have "plan = untitled_plan numChapters"
      by simp
    then have "map (plan_key plan) [0..<nat numChapters]
        = map (\<lambda>i. ''Chapter '' @ string_of_nat (i + 1) @ '' - Untitled'') [0..<nat numChapters]"
      by (simp add: fallback_plan_key)
    with keys show ?thesis
      by (simp only: fallback_keys_distinct)
  qed
  with front plan keys texts objs show "length (chapterObjects res) = nat numChapters
     \<and> (\<exists>t storyline tr1 plan.
           storyline_stages env prompt numChapters tr = (Inr (t, storyline), tr1)
           \<and> parse_plan env storyline numChapters = Inr plan
           \<and> map fst (chapterObjects res) = map (plan_key plan) [0..<nat numChapters]
           \<and> map snd (chapterObjects res) = chapters res
           \<and> (json_parse env storyline = None \<longrightarrow> distinct (map fst (chapterObjects res))))"
    by auto
qed

theorem chapter_records_witness:
  "\<exists>res tr'. writeFantasyNovel fallback_runtime ''A lighthouse'' 2 ''plain'' [] = Some (Inr res, tr')
      \<and> (1::int) \<le> 2
      \<and> json_parse fallback_runtime long_text = None
      \<and> length (chapterObjects res) = 2
      \<and> map fst (chapterObjects res) = [''Chapter 1 - Untitled'', ''Chapter 2 - Untitled'']
      \<and> map snd (chapterObjects res) = chapters res
      \<and> distinct (map fst (chapterObjects res))"
proof -
  obtain res tr1 tr' where
    front: "storyline_stages fallback_runtime ''A lighthouse'' 2 [] = (Inr (long_text, long_text), tr1)" and
    run: "writeFantasyNovel fallback_runtime ''A lighthouse'' 2 ''plain'' [] = Some (Inr res, tr')"
    using runtime_completes [OF fallback_runtime_def fallback_parse fallback_entries fallback_printable]
    by metis
  have parse: "json_parse fallback_runtime long_text = None"
    by (simp add: fallback_runtime_def demo_runtime_def scripted_runtime_def)
  have one: "string_of_nat (Suc 0) = ''1''" and two: "string_of_nat (Suc (Suc 0)) = ''2''"
    by code_simp+
  have keys: "map (plan_key (untitled_plan 2)) [0..<nat 2]
      = [''Chapter 1 - Untitled'', ''Chapter 2 - Untitled'']"
    by (simp add: fallback_plan_key upt_conv_Cons one two numeral_2_eq_2)
  from chapter_records [of fallback_runtime "''A lighthouse''" 2 "''plain''" "[]" res tr'] run front parse
    fallback_parse
  have "length (chapterObjects res) = 2
      \<and> map fst (chapterObjects res) = map (plan_key (untitled_plan 2)) [0..<nat 2]
      \<and> map snd (chapterObjects res) = chapters res
      \<and> distinct (map fst (chapterObjects res))"
    by auto
  with run parse keys show ?thesis by auto
qed

text \<open>
  The claim as stated fails on a parsed plan that uses the same key twice: both
  records carry that key.
\<close>

theorem chapter_records_twin_keys:
  "map_option (map fst \<circ> chapterObjects)
     (completed (writeFantasyNovel twin_runtime ''A lighthouse'' 2 ''plain'' []))
   = Some [''Chapter 1 - Dawn'', ''Chapter 1 - Dawn'']"
proof -
  obtain res tr1 tr' where
    run: "writeFantasyNovel twin_runtime ''A lighthouse'' 2 ''plain'' [] = Some (Inr res, tr')" and
    stages: "chapter_stages twin_runtime 2 ''plain'' long_text long_text tr1 = Some (Inr res, tr')"
    using runtime_completes [OF twin_runtime_def twin_parse twin_entries twin_printable] by metis
  from chapter_stages_returns [OF stages] twin_parse
  have "chapterObjects res = map (\<lambda>i. (plan_key twin_plan i, chapters res ! i)) [0..<max 1 (nat 2)]"
    by auto
  then have "map fst (chapterObjects res) = [plan_key twin_plan 0, plan_key twin_plan 1]"
    by (simp add: upt_conv_Cons numeral_2_eq_2)
  also have "\<dots> = [''Chapter 1 - Dawn'', ''Chapter 1 - Dawn'']"
    by (simp add: plan_key_def entry_at_def twin_plan_def)
  finally show ?thesis
    using run by (simp add: completed_def)
qed


section \<open>The manuscript as context\<close>



section \<open>The storyline text under the fallback plan\<close>

text \<open>
  Claim C10. When the storyline text does not parse and the run returns, the
  manuscript starts with the header holding the raw storyline text; the prompts of
  the first chapter and of every later chapter carry the raw storyline text as the
  plot; only the plan entries in the prompts and the keys of the records come from
  the fallback plan.
\<close>

theorem fallback_keeps_storyline:
  "writeFantasyNovel env prompt numChapters ws tr = Some (Inr res, tr')
   \<and> storyline_stages env prompt numChapters tr = (Inr (t, storyline), tr1)
   \<and> json_parse env storyline = None \<longrightarrow>
     prefix (''Storyline:\<newline>'' @ storyline @ ''\<newline>\<newline>'') (novel res)
     \<and> map fst (chapterObjects res)
         = map (\<lambda>i. ''Chapter '' @ string_of_nat (i + 1) @ '' - Untitled'') [0..<nat numChapters]
     \<and> (\<exists>firstPrompt draft attempts.
           firstChapter_prompt storyline
             (Some (JObject [(''Chapter '' @ string_of_nat 1 @ '' - Untitled'',
                              JString (''This is chapter '' @ string_of_nat 1))])) ws = Inr firstPrompt
           \<and> tr' = tr1
             @ [ollama_request env firstPrompt,
                ollama_request env (firstChapter_improvePrompt storyline draft ws)]
             @ concat (map (\<lambda>i. replicate (Suc (attempts i))
                  (ollama_request env
                     (chapter_prompt (manuscript storyline (take i (chapters res))) storyline
                        (Some (JObject [(''Chapter '' @ string_of_nat (i + 1) @ '' - Untitled'',
                                         JString (''This is chapter '' @ string_of_nat (i + 1)))])))))
                [1..<nat numChapters]))"
proof
  assume asm: "writeFantasyNovel env prompt numChapters ws tr = Some (Inr res, tr')
   \<and> storyline_stages env prompt numChapters tr = (Inr (t, storyline), tr1)
   \<and> json_parse env storyline = None"
  then have stages: "chapter_stages env numChapters ws t storyline tr1 = Some (Inr res, tr')"
    using writeFantasyNovel_chapters [of env prompt numChapters tr t storyline tr1 ws] by simp
  from chapter_stages_returns [OF stages] obtain plan firstPrompt draft attempts where
    parsed: "parse_plan env storyline numChapters = Inr plan" and
    nov: "novel res = manuscript storyline (chapters res)" and
    objs0: "chapterObjects res = map (\<lambda>i. (plan_key plan i, chapters res ! i))
             [0..<max 1 (nat numChapters)]" and
    ok0: "\<forall>i<max 1 (nat numChapters). entry_ok plan i" and
    first0: "firstChapter_prompt storyline (entry_at plan 0) ws = Inr firstPrompt" and
    tr0: "tr' = tr1
       @ [ollama_request env firstPrompt,
          ollama_request env (firstChapter_improvePrompt storyline draft ws)]
       @ concat (map (\<lambda>i. replicate (Suc (attempts i))
            (chapter_request env storyline (chapters res) plan i))
          [1..<nat numChapters])"
    by blast
  from asm parsed have plan: "plan = untitled_plan numChapters"
    using unparsed_plan_cases by blast
  note objs = objs0 [unfolded plan] and ok = ok0 [unfolded plan] and first = first0 [unfolded plan]
    and tr' = tr0 [unfolded plan]
  from ok have "entry_ok (untitled_plan numChapters) 0" by simp
  then have n: "0 < nat numChapters"
    by (cases "0 < nat numChapters") (simp_all add: entry_ok_def untitled_plan_def)
  then have mx: "max 1 (nat numChapters) = nat numChapters" by simp
  from nov have "prefix (''Storyline:\<newline>'' @ storyline @ ''\<newline>\<newline>'') (novel res)"
    by (simp add: manuscript_def)
  moreover from objs have "map fst (chapterObjects res)
         = map (\<lambda>i. ''Chapter '' @ string_of_nat (i + 1) @ '' - Untitled'') [0..<nat numChapters]"
    unfolding mx by (simp add: fallback_plan_key comp_def)
  moreover from n have e0: "entry_at (untitled_plan numChapters) 0
      = Some (JObject [(''Chapter '' @ string_of_nat 1 @ '' - Untitled'',
                        JString (''This is chapter '' @ string_of_nat 1))])"
    using fallback_entry [of 0 numChapters] by (simp add: entry_at_def)
  have "map (\<lambda>i. replicate (Suc (attempts i))
            (chapter_request env storyline (chapters res) (untitled_plan numChapters) i))
          [1..<nat numChapters]
     = map (\<lambda>i. replicate (Suc (attempts i))
                  (ollama_request env
                     (chapter_prompt (manuscript storyline (take i (chapters res))) storyline
                        (Some (JObject [(''Chapter '' @ string_of_nat (i + 1) @ '' - Untitled'',
                                         JString (''This is chapter '' @ string_of_nat (i + 1)))])))))
                [1..<nat numChapters]"
    by (rule map_cong) (simp_all add: chapter_request_def entry_at_def fallback_entry)
  with tr' first e0 have "\<exists>firstPrompt draft attempts.
           firstChapter_prompt storyline
             (Some (JObject [(''Chapter '' @ string_of_nat 1 @ '' - Untitled'',
                              JString (''This is chapter '' @ string_of_nat 1))])) ws = Inr firstPrompt
           \<and> tr' = tr1
             @ [ollama_request env firstPrompt,
                ollama_request env (firstChapter_improvePrompt storyline draft ws)]
             @ concat (map (\<lambda>i. replicate (Suc (attempts i))
                  (ollama_request env
                     (chapter_prompt (manuscript storyline (take i (chapters res))) storyline
                        (Some (JObject [(''Chapter '' @ string_of_nat (i + 1) @ '' - Untitled'',
                                         JString (''This is chapter '' @ string_of_nat (i + 1)))])))))
                [1..<nat numChapters])"
    by (simp only:) blast
  ultimately show "prefix (''Storyline:\<newline>'' @ storyline @ ''\<newline>\<newline>'') (novel res)
     \<and> map fst (chapterObjects res)
         = map (\<lambda>i. ''Chapter '' @ string_of_nat (i + 1) @ '' - Untitled'') [0..<nat numChapters]
     \<and> (\<exists>firstPrompt draft attempts.
           firstChapter_prompt storyline
             (Some (JObject [(''Chapter '' @ string_of_nat 1 @ '' - Untitled'',
                              JString (''This is chapter '' @ string_of_nat 1))])) ws = Inr firstPrompt
           \<and> tr' = tr1
             @ [ollama_request env firstPrompt,
                ollama_request env (firstChapter_improvePrompt storyline draft ws)]
             @ concat (map (\<lambda>i. replicate (Suc (attempts i))
                  (ollama_request env
                     (chapter_prompt (manuscript storyline (take i (chapters res))) storyline
                        (Some (JObject [(''Chapter '' @ string_of_nat (i + 1) @ '' - Untitled'',
                                         JString (''This is chapter '' @ string_of_nat (i + 1)))])))))
                [1..<nat numChapters]))"
    by blast
qed


theorem fallback_keeps_storyline_witness:
  "\<exists>res tr' tr1.
      writeFantasyNovel fallback_runtime ''A lighthouse'' 2 ''plain'' [] = Some (Inr res, tr')
      \<and> storyline_stages fallback_runtime ''A lighthouse'' 2 [] = (Inr (long_text, long_text), tr1)
      \<and> json_parse fallback_runtime long_text = None
      \<and> prefix (''Storyline:\<newline>'' @ long_text @ ''\<newline>\<newline>'') (novel res)
      \<and> map fst (chapterObjects res) = [''Chapter 1 - Untitled'', ''Chapter 2 - Untitled'']"
proof -
  obtain res tr1 tr' where
    front: "storyline_stages fallback_runtime ''A lighthouse'' 2 [] = (Inr (long_text, long_text), tr1)" and
    run: "writeFantasyNovel fallback_runtime ''A lighthouse'' 2 ''plain'' [] = Some (Inr res, tr')"
    using runtime_completes [OF fallback_runtime_def fallback_parse fallback_entries fallback_printable]
    by metis
  have parse: "json_parse fallback_runtime long_text = None"
    by (simp add: fallback_runtime_def demo_runtime_def scripted_runtime_def)
  have one: "string_of_nat (Suc 0) = ''1''" and two: "string_of_nat (Suc (Suc 0)) = ''2''"
    by code_simp+
  from fallback_keeps_storyline [of fallback_runtime "''A lighthouse''" 2 "''plain''" "[]" res tr'
      long_text long_text tr1] run front parse
  have "prefix (''Storyline:\<newline>'' @ long_text @ ''\<newline>\<newline>'') (novel res)
     \<and> map fst (chapterObjects res)
         = map (\<lambda>i. ''Chapter '' @ string_of_nat (i + 1) @ '' - Untitled'') [0..<nat 2]"
    by blast
  then have "prefix (''Storyline:\<newline>'' @ long_text @ ''\<newline>\<newline>'') (novel res)
     \<and> map fst (chapterObjects res) = [''Chapter 1 - Untitled'', ''Chapter 2 - Untitled'']"
    by (simp add: upt_conv_Cons one two numeral_2_eq_2)
  with run front parse show ?thesis
    by (intro exI [of _ res] exI [of _ tr'] exI [of _ tr1]) simp
qed

section \<open>Recovery from a storyline that does not parse\<close>

text \<open>
  Claim C1, as amended. Let the count be at least 1 and below \<open>2\<^sup>3\<^sup>2\<close>, the
  storyline text fail to parse and every call of the service succeed. Then the run
  never ends in an error; if moreover every request, repeated often enough, is
  answered with at least 1000 characters, the run returns, with the requested number
  of chapters, keyed by the fallback plan; and if the run never returns, some
  request is answered by a short text again and again, for ever.
\<close>

theorem parse_failure_recovered:
  assumes "1 \<le> numChapters" and "numChapters < 2 ^ 32"
    and "storyline_stages env prompt numChapters tr = (Inr (t, storyline), tr1)"
    and "json_parse env storyline = None"
    and "\<forall>k req. \<exists>r. reply_of (service env k req) = Inr r"
  shows "(\<forall>e tr'. writeFantasyNovel env prompt numChapters ws tr \<noteq> Some (Inl e, tr'))
    \<and> ((\<forall>k req. \<exists>j. \<forall>r. reply_of (service env (k + j) req) = Inr r \<longrightarrow> 1000 \<le> length r) \<longrightarrow>
        (\<exists>res tr'. writeFantasyNovel env prompt numChapters ws tr = Some (Inr res, tr')
           \<and> length (chapters res) = nat numChapters
           \<and> map fst (chapterObjects res)
               = map (\<lambda>i. ''Chapter '' @ string_of_nat (i + 1) @ '' - Untitled'') [0..<nat numChapters]))
    \<and> (writeFantasyNovel env prompt numChapters ws tr = None \<longrightarrow>
        (\<exists>m req. \<forall>j. \<exists>r. reply_of (service env (m + j) req) = Inr r \<and> length r < 1000))"
proof (intro conjI allI impI)
  show "\<exists>m req. \<forall>j. \<exists>r. reply_of (service env (m + j) req) = Inr r \<and> length r < 1000"
    if "writeFantasyNovel env prompt numChapters ws tr = None"
    using that by (rule writeFantasyNovel_diverges)
  let ?plan = "untitled_plan numChapters"
  from assms(4,2) have plan: "parse_plan env storyline numChapters = Inr ?plan"
    by (rule unparsed_plan)
  from assms(1) have mx: "max 1 (nat numChapters) = nat numChapters" by auto
  have ok: "\<forall>i<max 1 (nat numChapters). entry_ok ?plan i"
    unfolding mx by (simp add: fallback_entry_ok)
  have prints: "printable (entry_at ?plan 0)"
    by (rule fallback_printable)
  have run: "writeFantasyNovel env prompt numChapters ws tr = chapter_stages env numChapters ws t storyline tr1"
    using assms(3) by (rule writeFantasyNovel_chapters)
  show "writeFantasyNovel env prompt numChapters ws tr \<noteq> Some (Inl e, tr')" for e tr'
  proof
    assume "writeFantasyNovel env prompt numChapters ws tr = Some (Inl e, tr')"
    with run have "chapter_stages env numChapters ws t storyline tr1 = Some (Inl e, tr')" by simp
    from chapter_stages_settles [OF this] plan ok prints
    have "answered env tr' (length tr' - 1) = Inl e"
      by (simp add: settles_def)
    with assms(5) show False
      by (metis answered_def sum.distinct(1))
  qed
  assume long: "\<forall>k req. \<exists>j. \<forall>r. reply_of (service env (k + j) req) = Inr r \<longrightarrow> 1000 \<le> length r"
  from chapter_stages_total [OF assms(5) long plan ok prints] obtain res tr' where
    stages: "chapter_stages env numChapters ws t storyline tr1 = Some (Inr res, tr')"
    by blast
  from chapter_stages_returns [OF stages] plan
  have "length (chapters res) = nat numChapters"
    and "chapterObjects res = map (\<lambda>i. (plan_key ?plan i, chapters res ! i))
             [0..<nat numChapters]"
    unfolding mx by auto
  then have "length (chapters res) = nat numChapters
           \<and> map fst (chapterObjects res)
               = map (\<lambda>i. ''Chapter '' @ string_of_nat (i + 1) @ '' - Untitled'') [0..<nat numChapters]"
    by (simp add: fallback_plan_key comp_def)
  with run stages show "\<exists>res tr'. writeFantasyNovel env prompt numChapters ws tr = Some (Inr res, tr')
           \<and> length (chapters res) = nat numChapters
           \<and> map fst (chapterObjects res)
               = map (\<lambda>i. ''Chapter '' @ string_of_nat (i + 1) @ '' - Untitled'') [0..<nat numChapters]"
    by auto
qed

theorem parse_failure_recovered_witness:
  "(1::int) \<le> 2 \<and> (2::int) < 2 ^ 32
   \<and> (\<exists>t storyline tr1 res tr'.
        storyline_stages (slow_runtime 9) ''A lighthouse'' 2 [] = (Inr (t, storyline), tr1)
        \<and> json_parse (slow_runtime 9) storyline = None
        \<and> reply_of (service (slow_runtime 9) 8 (ollama_request (slow_runtime 9) ''again'')) = Inr ''Too short.''
        \<and> writeFantasyNovel (slow_runtime 9) ''A lighthouse'' 2 ''plain'' [] = Some (Inr res, tr')
        \<and> length (chapters res) = 2
        \<and> map fst (chapterObjects res) = [''Chapter 1 - Untitled'', ''Chapter 2 - Untitled''])
   \<and> writeFantasyNovel terse_runtime ''A lighthouse'' 2 ''plain'' [] = None
   \<and> (\<exists>m req. \<forall>j. \<exists>r. reply_of (service terse_runtime (m + j) req) = Inr r \<and> length r < 1000)"
proof (intro conjI)
  show "(1::int) \<le> 2" "(2::int) < 2 ^ 32"
    by simp_all
  from slow_storyline obtain t storyline tr1 where
    front: "storyline_stages (slow_runtime 9) ''A lighthouse'' 2 [] = (Inr (t, storyline), tr1)" and
    parse: "json_parse (slow_runtime 9) storyline = None"
    by blast
  have ok: "\<forall>k req. \<exists>r. reply_of (service (slow_runtime 9) k req) = Inr r"
    by (simp add: slow_reply)
  have long: "\<forall>k req. \<exists>j. \<forall>r. reply_of (service (slow_runtime 9) (k + j) req) = Inr r \<longrightarrow> 1000 \<le> length r"
  proof (intro allI)
    fix k :: nat and req :: request
    have "\<forall>r. reply_of (service (slow_runtime 9) (k + 9) req) = Inr r \<longrightarrow> 1000 \<le> length r"
      by (simp add: slow_reply long_text_length)
    then show "\<exists>j. \<forall>r. reply_of (service (slow_runtime 9) (k + j) req) = Inr r \<longrightarrow> 1000 \<le> length r"
      by (rule exI)
  qed
  have one: "string_of_nat (Suc 0) = ''1''" and two: "string_of_nat (Suc (Suc 0)) = ''2''"
    by code_simp+
  from parse_failure_recovered [OF _ _ front parse ok, of "''plain''"] long
  obtain res tr' where
    "writeFantasyNovel (slow_runtime 9) ''A lighthouse'' 2 ''plain'' [] = Some (Inr res, tr')"
    "length (chapters res) = nat 2"
    "map fst (chapterObjects res)
       = map (\<lambda>i. ''Chapter '' @ string_of_nat (i + 1) @ '' - Untitled'') [0..<nat 2]"
    by auto
  moreover have "reply_of (service (slow_runtime 9) 8 (ollama_request (slow_runtime 9) ''again'')) = Inr ''Too short.''"
    by (simp add: slow_reply)
  ultimately show "\<exists>t storyline tr1 res tr'.
        storyline_stages (slow_runtime 9) ''A lighthouse'' 2 [] = (Inr (t, storyline), tr1)
        \<and> json_parse (slow_runtime 9) storyline = None
        \<and> reply_of (service (slow_runtime 9) 8 (ollama_request (slow_runtime 9) ''again'')) = Inr ''Too short.''
        \<and> writeFantasyNovel (slow_runtime 9) ''A lighthouse'' 2 ''plain'' [] = Some (Inr res, tr')
        \<and> length (chapters res) = 2
        \<and> map fst (chapterObjects res) = [''Chapter 1 - Untitled'', ''Chapter 2 - Untitled'']"
    using front parse by (auto simp: upt_conv_Cons one two numeral_2_eq_2)
next
  show never: "writeFantasyNovel terse_runtime ''A lighthouse'' 2 ''plain'' [] = None"
    by (rule terse_never_returns)
  have ok: "\<forall>k req. \<exists>r. reply_of (service terse_runtime k req) = Inr r"
    by (simp add: terse_reply)
  from storyline_stages_total [OF ok] obtain t storyline tr1 where
    front: "storyline_stages terse_runtime ''A lighthouse'' 2 [] = (Inr (t, storyline), tr1)"
    by blast
  have parse: "json_parse terse_runtime storyline = None"
    by (simp add: terse_runtime_def scripted_runtime_def)
  from parse_failure_recovered [OF _ _ front parse ok, of "''plain''"] never
  show "\<exists>m req. \<forall>j. \<exists>r. reply_of (service terse_runtime (m + j) req) = Inr r \<and> length r < 1000"
    by simp
qed

text \<open>
  The claim as stated fails twice. With a service whose every answer is short,
  every call succeeds, the first chapter is written, and the second chapter is
  retried for ever: the run never returns. And with \<open>2\<^sup>3\<^sup>2\<close> chapters asked for and
  a service whose every answer is long, the run ends at the storyline stage, with the
  \<^verbatim>\<open>RangeError\<close> of \<^verbatim>\<open>Array.from\<close>.
\<close>

theorem parse_failure_not_recovered:
  "writeFantasyNovel terse_runtime ''A lighthouse'' 2 ''plain'' [] = None
   \<and> map_option fst (writeFantasyNovel fallback_runtime ''A lighthouse'' 4294967296 ''plain'' [])
       = Some (Inl RangeError)"
proof
  show "writeFantasyNovel terse_runtime ''A lighthouse'' 2 ''plain'' [] = None"
    by (rule terse_never_returns)
next
  from demo_storyline obtain tr1 where
    "storyline_stages fallback_runtime ''A lighthouse'' 4294967296 [] = (Inr (long_text, long_text), tr1)"
    unfolding fallback_runtime_def by blast
  moreover have "parse_plan fallback_runtime long_text 4294967296 = Inl RangeError"
    by (simp add: parse_plan_def fallback_plan_def fallback_runtime_def demo_runtime_def
        scripted_runtime_def)
  ultimately show "map_option fst (writeFantasyNovel fallback_runtime ''A lighthouse'' 4294967296 ''plain'' [])
       = Some (Inl RangeError)"
    by (simp add: writeFantasyNovel_def chapter_stages_def)
qed

section \<open>A storyline that parses to something else\<close>

text \<open>
  Claim C4, as amended. When the storyline text parses, the parsed value is the
  plan, whatever it is: the fallback plan is not substituted. If the plan is
  \<^verbatim>\<open>null\<close>, or one of its entries \<open>0 \<dots> N - 1\<close> (entry 0 when \<open>N < 1\<close>) is
  \<^verbatim>\<open>undefined\<close> or \<^verbatim>\<open>null\<close> (for an array: the array is too short or holds
  \<^verbatim>\<open>null\<close> there), or if entry 0 cannot be converted to a string for the first
  prompt (for an object: it has a property named \<^verbatim>\<open>toString\<close>), the run does not
  return a novel; in the last case it ends with a \<^verbatim>\<open>TypeError\<close> before any chapter
  is asked for, and in every case it ends with a \<^verbatim>\<open>TypeError\<close> when every call of
  the service succeeds and every request is eventually answered with at least 1000
  characters. Otherwise, under the same conditions on the service, the run returns,
  with the records keyed by the first keys of the entries, also when an entry is not
  a single-key object.
\<close>

theorem parsed_plan_kept:
  "storyline_stages env prompt numChapters tr = (Inr (t, storyline), tr1)
   \<and> json_parse env storyline = Some plan \<longrightarrow>
     parse_plan env storyline numChapters = Inr plan
     \<and> ((\<exists>i<max 1 (nat numChapters). \<not> entry_ok plan i) \<or> \<not> printable (entry_at plan 0) \<longrightarrow>
          (\<forall>res tr'. writeFantasyNovel env prompt numChapters ws tr \<noteq> Some (Inr res, tr')))
     \<and> (\<not> printable (entry_at plan 0) \<longrightarrow>
          writeFantasyNovel env prompt numChapters ws tr = Some (Inl TypeError, tr1))
     \<and> ((\<forall>k req. \<exists>r. reply_of (service env k req) = Inr r)
          \<and> (\<forall>k req. \<exists>j. \<forall>r. reply_of (service env (k + j) req) = Inr r \<longrightarrow> 1000 \<le> length r) \<longrightarrow>
          ((\<exists>i<max 1 (nat numChapters). \<not> entry_ok plan i) \<or> \<not> printable (entry_at plan 0) \<longrightarrow>
             (\<exists>tr'. writeFantasyNovel env prompt numChapters ws tr = Some (Inl TypeError, tr')))
          \<and> ((\<forall>i<max 1 (nat numChapters). entry_ok plan i) \<and> printable (entry_at plan 0) \<longrightarrow>
             (\<exists>res tr'. writeFantasyNovel env prompt numChapters ws tr = Some (Inr res, tr')
                \<and> map fst (chapterObjects res) = map (plan_key plan) [0..<max 1 (nat numChapters)])))
     \<and> (\<forall>xs i. plan = JArray xs \<longrightarrow> (entry_ok plan i \<longleftrightarrow> i < length xs \<and> xs ! i \<noteq> JNull))
     \<and> (\<forall>kvs. printable (Some (JObject kvs)) \<longleftrightarrow> ''toString'' \<notin> fst ` set kvs)"
proof
  assume asm: "storyline_stages env prompt numChapters tr = (Inr (t, storyline), tr1)
   \<and> json_parse env storyline = Some plan"
  then have plan: "parse_plan env storyline numChapters = Inr plan"
    by (simp add: parse_plan_def)
  from asm have run: "writeFantasyNovel env prompt numChapters ws tr
      = chapter_stages env numChapters ws t storyline tr1"
    by (simp add: writeFantasyNovel_chapters)
  have never: "writeFantasyNovel env prompt numChapters ws tr \<noteq> Some (Inr res, tr')"
    if bad: "(\<exists>i<max 1 (nat numChapters). \<not> entry_ok plan i) \<or> \<not> printable (entry_at plan 0)"
    for res tr'
  proof
    assume "writeFantasyNovel env prompt numChapters ws tr = Some (Inr res, tr')"
    with run have "chapter_stages env numChapters ws t storyline tr1 = Some (Inr res, tr')" by simp
    from chapter_stages_returns [OF this] plan obtain promptText where
      "\<forall>i<max 1 (nat numChapters). entry_ok plan i"
      "firstChapter_prompt storyline (entry_at plan 0) ws = Inr promptText"
      by auto
    then have "(\<forall>i<max 1 (nat numChapters). entry_ok plan i) \<and> printable (entry_at plan 0)"
      by (auto dest: prompt_printable)
    with bad show False by blast
  qed
  have early: "writeFantasyNovel env prompt numChapters ws tr = Some (Inl TypeError, tr1)"
    if np: "\<not> printable (entry_at plan 0)"
  proof (cases "property_at plan 0")
    case (Inl e)
    with np show ?thesis by (simp add: entry_at_def printable_def)
  next
    case (Inr entry)
    with np have "\<not> printable entry" by (simp add: entry_at_def)
    from writeFirstChapter_unprintable [OF this]
    have "writeFirstChapter env storyline entry ws tr1 = (Inl TypeError, tr1)" .
    with Inr show ?thesis
      unfolding run chapter_stages_plan [OF plan] by (simp add: write_chapters_def)
  qed
  have total: "((\<exists>i<max 1 (nat numChapters). \<not> entry_ok plan i) \<or> \<not> printable (entry_at plan 0) \<longrightarrow>
             (\<exists>tr'. writeFantasyNovel env prompt numChapters ws tr = Some (Inl TypeError, tr')))
          \<and> ((\<forall>i<max 1 (nat numChapters). entry_ok plan i) \<and> printable (entry_at plan 0) \<longrightarrow>
             (\<exists>res tr'. writeFantasyNovel env prompt numChapters ws tr = Some (Inr res, tr')
                \<and> map fst (chapterObjects res) = map (plan_key plan) [0..<max 1 (nat numChapters)]))"
    if ok: "\<forall>k req. \<exists>r. reply_of (service env k req) = Inr r"
      and long: "\<forall>k req. \<exists>j. \<forall>r. reply_of (service env (k + j) req) = Inr r \<longrightarrow> 1000 \<le> length r"
  proof (intro conjI impI)
    assume "(\<exists>i<max 1 (nat numChapters). \<not> entry_ok plan i) \<or> \<not> printable (entry_at plan 0)"
    from chapter_stages_type_error [OF ok long plan this]
    show "\<exists>tr'. writeFantasyNovel env prompt numChapters ws tr = Some (Inl TypeError, tr')"
      unfolding run .
  next
    assume good: "(\<forall>i<max 1 (nat numChapters). entry_ok plan i) \<and> printable (entry_at plan 0)"
    then have "\<forall>i<max 1 (nat numChapters). entry_ok plan i" "printable (entry_at plan 0)"
      by simp_all
    from chapter_stages_total [OF ok long plan this] obtain res tr' where
      stages: "chapter_stages env numChapters ws t storyline tr1 = Some (Inr res, tr')"
      by blast
    from chapter_stages_returns [OF stages] plan
    have "chapterObjects res = map (\<lambda>i. (plan_key plan i, chapters res ! i)) [0..<max 1 (nat numChapters)]"
      by auto
    then have "map fst (chapterObjects res) = map (plan_key plan) [0..<max 1 (nat numChapters)]"
      by (simp add: comp_def)
    with stages run
    show "\<exists>res tr'. writeFantasyNovel env prompt numChapters ws tr = Some (Inr res, tr')
                \<and> map fst (chapterObjects res) = map (plan_key plan) [0..<max 1 (nat numChapters)]"
      by auto
  qed
  have objects: "printable (Some (JObject kvs)) \<longleftrightarrow> ''toString'' \<notin> fst ` set kvs" for kvs
    by (simp add: printable_def)
  from plan never early total objects
  show "parse_plan env storyline numChapters = Inr plan
     \<and> ((\<exists>i<max 1 (nat numChapters). \<not> entry_ok plan i) \<or> \<not> printable (entry_at plan 0) \<longrightarrow>
          (\<forall>res tr'. writeFantasyNovel env prompt numChapters ws tr \<noteq> Some (Inr res, tr')))
     \<and> (\<not> printable (entry_at plan 0) \<longrightarrow>
          writeFantasyNovel env prompt numChapters ws tr = Some (Inl TypeError, tr1))
     \<and> ((\<forall>k req. \<exists>r. reply_of (service env k req) = Inr r)
          \<and> (\<forall>k req. \<exists>j. \<forall>r. reply_of (service env (k + j) req) = Inr r \<longrightarrow> 1000 \<le> length r) \<longrightarrow>
          ((\<exists>i<max 1 (nat numChapters). \<not> entry_ok plan i) \<or> \<not> printable (entry_at plan 0) \<longrightarrow>
             (\<exists>tr'. writeFantasyNovel env prompt numChapters ws tr = Some (Inl TypeError, tr')))
          \<and> ((\<forall>i<max 1 (nat numChapters). entry_ok plan i) \<and> printable (entry_at plan 0) \<longrightarrow>
             (\<exists>res tr'. writeFantasyNovel env prompt numChapters ws tr = Some (Inr res, tr')
                \<and> map fst (chapterObjects res) = map (plan_key plan) [0..<max 1 (nat numChapters)])))
     \<and> (\<forall>xs i. plan = JArray xs \<longrightarrow> (entry_ok plan i \<longleftrightarrow> i < length xs \<and> xs ! i \<noteq> JNull))
     \<and> (\<forall>kvs. printable (Some (JObject kvs)) \<longleftrightarrow> ''toString'' \<notin> fst ` set kvs)"
    by (simp add: entry_ok_array)
qed

theorem parsed_plan_kept_witness:
  "(\<exists>tr1 tr'.
      storyline_stages short_plan_runtime ''A lighthouse'' 2 [] = (Inr (long_text, long_text), tr1)
      \<and> json_parse short_plan_runtime long_text = Some short_plan
      \<and> parse_plan short_plan_runtime long_text 2 = Inr short_plan
      \<and> \<not> entry_ok short_plan 1
      \<and> writeFantasyNovel short_plan_runtime ''A lighthouse'' 2 ''plain'' [] = Some (Inl TypeError, tr'))
   \<and> (\<exists>tr1 res tr'.
      storyline_stages full_plan_runtime ''A lighthouse'' 2 [] = (Inr (long_text, long_text), tr1)
      \<and> json_parse full_plan_runtime long_text = Some full_plan
      \<and> entry_ok full_plan 0 \<and> entry_ok full_plan 1 \<and> printable (entry_at full_plan 0)
      \<and> writeFantasyNovel full_plan_runtime ''A lighthouse'' 2 ''plain'' [] = Some (Inr res, tr')
      \<and> map fst (chapterObjects res) = [''Chapter 1 - Dawn'', ''Chapter 2 - Dusk''])
   \<and> (\<exists>tr1.
      storyline_stages shadow_runtime ''A lighthouse'' 1 [] = (Inr (long_text, long_text), tr1)
      \<and> json_parse shadow_runtime long_text = Some shadow_plan
      \<and> entry_ok shadow_plan 0 \<and> \<not> printable (entry_at shadow_plan 0)
      \<and> writeFantasyNovel shadow_runtime ''A lighthouse'' 1 ''plain'' [] = Some (Inl TypeError, tr1))"
proof (intro conjI)
  let ?S = short_plan_runtime
  from demo_storyline [of "\<lambda>s. Some short_plan" "''A lighthouse''" 2 "[]"] obtain tr1 where
    front: "storyline_stages ?S ''A lighthouse'' 2 [] = (Inr (long_text, long_text), tr1)"
    unfolding short_plan_runtime_def by blast
  have parse: "json_parse ?S long_text = Some short_plan"
    by (simp add: short_plan_runtime_def demo_runtime_def scripted_runtime_def)
  have ok: "\<forall>k req. \<exists>r. reply_of (service ?S k req) = Inr r"
    unfolding short_plan_runtime_def by (rule demo_succeeds)
  have long: "\<forall>k req. \<exists>j. \<forall>r. reply_of (service ?S (k + j) req) = Inr r \<longrightarrow> 1000 \<le> length r"
    unfolding short_plan_runtime_def by (rule demo_long)
  have bad: "\<not> entry_ok short_plan 1"
    by (simp add: short_plan_def entry_ok_def)
  then have "\<exists>i<max 1 (nat 2). \<not> entry_ok short_plan i"
    by (intro exI [of _ 1]) simp
  with parsed_plan_kept [of ?S "''A lighthouse''" 2 "[]" long_text long_text tr1 short_plan "''plain''"]
    front parse ok long
  have "parse_plan ?S long_text 2 = Inr short_plan
    \<and> (\<exists>tr'. writeFantasyNovel ?S ''A lighthouse'' 2 ''plain'' [] = Some (Inl TypeError, tr'))"
    by blast
  with front parse bad
  show "\<exists>tr1 tr'.
      storyline_stages ?S ''A lighthouse'' 2 [] = (Inr (long_text, long_text), tr1)
      \<and> json_parse ?S long_text = Some short_plan
      \<and> parse_plan ?S long_text 2 = Inr short_plan
      \<and> \<not> entry_ok short_plan 1
      \<and> writeFantasyNovel ?S ''A lighthouse'' 2 ''plain'' [] = Some (Inl TypeError, tr')"
    by blast
next
  let ?F = full_plan_runtime
  from demo_storyline [of "\<lambda>s. Some full_plan" "''A lighthouse''" 2 "[]"] obtain tr1 where
    front: "storyline_stages ?F ''A lighthouse'' 2 [] = (Inr (long_text, long_text), tr1)"
    unfolding full_plan_runtime_def by blast
  have parse: "json_parse ?F long_text = Some full_plan"
    by (simp add: full_plan_runtime_def demo_runtime_def scripted_runtime_def)
  have ok: "\<forall>k req. \<exists>r. reply_of (service ?F k req) = Inr r"
    unfolding full_plan_runtime_def by (rule demo_succeeds)
  have long: "\<forall>k req. \<exists>j. \<forall>r. reply_of (service ?F (k + j) req) = Inr r \<longrightarrow> 1000 \<le> length r"
    unfolding full_plan_runtime_def by (rule demo_long)
  have good: "entry_ok full_plan 0" "entry_ok full_plan 1" "printable (entry_at full_plan 0)"
    by (simp_all add: full_plan_def entry_ok_def printable_def entry_at_def)
  then have "(\<forall>i<max 1 (nat 2). entry_ok full_plan i) \<and> printable (entry_at full_plan 0)"
    by (auto simp: less_Suc_eq numeral_2_eq_2)
  with parsed_plan_kept [of ?F "''A lighthouse''" 2 "[]" long_text long_text tr1 full_plan "''plain''"]
    front parse ok long
  obtain res tr' where
    run: "writeFantasyNovel ?F ''A lighthouse'' 2 ''plain'' [] = Some (Inr res, tr')" and
    keys: "map fst (chapterObjects res) = map (plan_key full_plan) [0..<max 1 (nat 2)]"
    by blast
  have "map (plan_key full_plan) [0..<max 1 (nat 2)] = [''Chapter 1 - Dawn'', ''Chapter 2 - Dusk'']"
    by (simp add: upt_conv_Cons numeral_2_eq_2 plan_key_def entry_at_def full_plan_def)
  with front parse good run keys
  show "\<exists>tr1 res tr'.
      storyline_stages ?F ''A lighthouse'' 2 [] = (Inr (long_text, long_text), tr1)
      \<and> json_parse ?F long_text = Some full_plan
      \<and> entry_ok full_plan 0 \<and> entry_ok full_plan 1 \<and> printable (entry_at full_plan 0)
      \<and> writeFantasyNovel ?F ''A lighthouse'' 2 ''plain'' [] = Some (Inr res, tr')
      \<and> map fst (chapterObjects res) = [''Chapter 1 - Dawn'', ''Chapter 2 - Dusk'']"
    by (intro exI [of _ tr1] exI [of _ res] exI [of _ tr']) simp
next
  let ?T = shadow_runtime
  from demo_storyline [of "\<lambda>s. Some shadow_plan" "''A lighthouse''" 1 "[]"] obtain tr1 where
    front: "storyline_stages ?T ''A lighthouse'' 1 [] = (Inr (long_text, long_text), tr1)"
    unfolding shadow_runtime_def by blast
  have parse: "json_parse ?T long_text = Some shadow_plan"
    by (simp add: shadow_runtime_def demo_runtime_def scripted_runtime_def)
  have entry: "entry_ok shadow_plan 0" "\<not> printable (entry_at shadow_plan 0)"
    by (simp_all add: shadow_plan_def entry_ok_def printable_def entry_at_def)
  with parsed_plan_kept [of ?T "''A lighthouse''" 1 "[]" long_text long_text tr1 shadow_plan "''plain''"]
    front parse
  have "writeFantasyNovel ?T ''A lighthouse'' 1 ''plain'' [] = Some (Inl TypeError, tr1)"
    by blast
  with front parse entry
  show "\<exists>tr1.
      storyline_stages ?T ''A lighthouse'' 1 [] = (Inr (long_text, long_text), tr1)
      \<and> json_parse ?T long_text = Some shadow_plan
      \<and> entry_ok shadow_plan 0 \<and> \<not> printable (entry_at shadow_plan 0)
      \<and> writeFantasyNovel ?T ''A lighthouse'' 1 ''plain'' [] = Some (Inl TypeError, tr1)"
    by blast
qed

text \<open>
  The claim as stated fails on a plan that is an array of the requested length whose
  entry is a number: no key is missing to the code, the record is keyed
  \<^verbatim>\<open>undefined\<close> and the run returns.
\<close>

theorem parsed_plan_of_numbers:
  "json_parse number_runtime long_text = Some (JArray [JNumber ''5''])
   \<and> map_option (map fst \<circ> chapterObjects)
        (completed (writeFantasyNovel number_runtime ''A lighthouse'' 1 ''plain'' []))
      = Some [''undefined'']"
proof -
  obtain res tr1 tr' where
    run: "writeFantasyNovel number_runtime ''A lighthouse'' 1 ''plain'' [] = Some (Inr res, tr')" and
    stages: "chapter_stages number_runtime 1 ''plain'' long_text long_text tr1 = Some (Inr res, tr')"
    using runtime_completes [OF number_runtime_def number_parse number_entries number_printable]
    by metis
  have parse: "json_parse number_runtime long_text = Some (JArray [JNumber ''5''])"
    by (simp add: number_runtime_def demo_runtime_def scripted_runtime_def number_plan_def)
  from chapter_stages_returns [OF stages] number_parse
  have "chapterObjects res = map (\<lambda>i. (plan_key number_plan i, chapters res ! i)) [0..<max 1 (nat 1)]"
    by auto
  then have "map fst (chapterObjects res) = [plan_key number_plan 0]"
    by simp
  also have "\<dots> = [''undefined'']"
    by (simp add: plan_key_def entry_at_def number_plan_def)
  finally show ?thesis
    using run parse by (simp add: completed_def)
qed


section \<open>Failures of the generation service\<close>

text \<open>
  Claim C9, as amended. \<^verbatim>\<open>callOllama\<close> throws the error of a failed call as it
  is, after that one request; so does \<^verbatim>\<open>writeChapter\<close>, which repeats a request
  only when it was answered with a short text, and throws the error of the first
  call that fails. In a run of \<^verbatim>\<open>writeFantasyNovel\<close> that ends, a call that
  failed is the last request of the run, the run ends with the error of that call,
  and the program produces no artifact. In a run of the program that ends, a call
  that failed is the last request, its error is the one reported, and neither cover
  nor e-book is made. A run of the program that never ends is one in which some
  request is answered by a short text again and again, for ever: no failure keeps a
  run going. The call that asks for the cover caption comes after the manuscript
  file is written: when it fails, the manuscript file is there.
\<close>

theorem generation_failure_aborts:
  "(reply_of (service env (length tr) (ollama_request env p)) = Inl e \<longrightarrow>
      callOllama env p tr = (Inl e, tr @ [ollama_request env p]))
   \<and> (object_keys entry = Inr ks
       \<and> (\<forall>j<n. \<exists>r. reply_of (service env (length tr + j)
              (ollama_request env (chapter_prompt prev plot entry))) = Inr r \<and> length r < 1000)
       \<and> reply_of (service env (length tr + n)
            (ollama_request env (chapter_prompt prev plot entry))) = Inl e \<longrightarrow>
       writeChapter env prev plot entry tr
         = Some (Inl e, tr @ replicate (Suc n) (ollama_request env (chapter_prompt prev plot entry))))
   \<and> (writeFantasyNovel env prompt numChapters ws [] = Some (out, trA)
       \<and> k < length trA \<and> answered env trA k = Inl e \<longrightarrow>
        k = length trA - 1 \<and> out = Inl e
        \<and> main env prompt numChapters ws = Some ([], Some e, trA))
   \<and> (main env prompt numChapters ws = Some (artifacts, err, trM)
       \<and> k < length trM \<and> answered env trM k = Inl e \<longrightarrow>
        k = length trM - 1 \<and> err = Some e
        \<and> (\<forall>a \<in> set artifacts. \<exists>name text. a = ManuscriptFile name text))
   \<and> (main env prompt numChapters ws = None \<longrightarrow>
        (\<exists>m req. \<forall>j. \<exists>r. reply_of (service env (m + j) req) = Inr r \<and> length r < 1000))
   \<and> (writeFantasyNovel env prompt numChapters ws [] = Some (Inr res, trB)
        \<and> reply_of (service env (length trB) (ollama_request env
             (cover_prompt (json_stringify (records_json (chapterObjects res)))))) = Inl e \<longrightarrow>
        main env prompt numChapters ws
          = Some ([ManuscriptFile (validFilename prompt) (novel res)], Some e,
                  trB @ [ollama_request env
                    (cover_prompt (json_stringify (records_json (chapterObjects res))))]))"
proof (intro conjI impI)
  assume "reply_of (service env (length tr) (ollama_request env p)) = Inl e"
  then show "callOllama env p tr = (Inl e, tr @ [ollama_request env p])"
    by (simp add: callOllama_def Let_def)
next
  assume "object_keys entry = Inr ks
       \<and> (\<forall>j<n. \<exists>r. reply_of (service env (length tr + j)
              (ollama_request env (chapter_prompt prev plot entry))) = Inr r \<and> length r < 1000)
       \<and> reply_of (service env (length tr + n)
            (ollama_request env (chapter_prompt prev plot entry))) = Inl e"
  then show "writeChapter env prev plot entry tr
         = Some (Inl e, tr @ replicate (Suc n) (ollama_request env (chapter_prompt prev plot entry)))"
    by (intro writeChapter_fails_after) simp_all
next
  assume "main env prompt numChapters ws = None"
  then show "\<exists>m req. \<forall>j. \<exists>r. reply_of (service env (m + j) req) = Inr r \<and> length r < 1000"
    by (rule main_diverges)
next
  assume asm: "writeFantasyNovel env prompt numChapters ws [] = Some (out, trA)
       \<and> k < length trA \<and> answered env trA k = Inl e"
  then have "writeFantasyNovel env prompt numChapters ws [] = Some (out, trA)"
    by simp
  then have "settles env False [] (out, trA)"
    by (rule writeFantasyNovel_settles)
  from failed_call_last [OF this, of k e] asm
  have both: "k = length trA - 1 \<and> out = Inl e"
    by simp
  then show last: "k = length trA - 1" and out: "out = Inl e"
    by simp_all
  from asm out show "main env prompt numChapters ws = Some ([], Some e, trA)"
    by (simp add: main_def)
next
  assume asm: "main env prompt numChapters ws = Some (artifacts, err, trM)
       \<and> k < length trM \<and> answered env trM k = Inl e"
  then have k: "k < length trM" and fail: "answered env trM k = Inl e"
    by simp_all
  have "k = length trM - 1 \<and> err = Some e
        \<and> (\<forall>a \<in> set artifacts. \<exists>name text. a = ManuscriptFile name text)"
  proof (cases "writeFantasyNovel env prompt numChapters ws []")
    case None
    with asm show ?thesis by (simp add: main_def)
  next
    case (Some p)
    obtain out tr1 where p: "p = (out, tr1)" by (cases p)
    from Some p have "writeFantasyNovel env prompt numChapters ws [] = Some (out, tr1)"
      by simp
    then have s1: "settles env False [] (out, tr1)"
      by (rule writeFantasyNovel_settles)
    show ?thesis
    proof (cases out)
      case (Inl e')
      with asm Some p have "artifacts = []" "err = Some e'" "trM = tr1"
        by (simp_all add: main_def)
      moreover from failed_call_last [OF s1, of k e] k fail \<open>trM = tr1\<close> Inl
      have "k = length tr1 - 1 \<and> e' = e" by simp
      ultimately show ?thesis by simp
    next
      case (Inr r)
      obtain c tr2 where cover:
        "createCoverImage env (json_stringify (records_json (chapterObjects r))) tr1 = (c, tr2)"
        by (cases "createCoverImage env (json_stringify (records_json (chapterObjects r))) tr1")
      have "settles env False tr1
          (createCoverImage env (json_stringify (records_json (chapterObjects r))) tr1)"
        by (rule createCoverImage_settles)
      then have "settles env False tr1 (c, tr2)"
        by (simp only: cover)
      with s1 Inr have s2: "settles env False [] (c, tr2)"
        by (auto intro: settles_seq)
      show ?thesis
      proof (cases c)
        case (Inl e')
        with asm Some p Inr cover
        have "artifacts = [ManuscriptFile (validFilename prompt) (novel r)]" "err = Some e'" "trM = tr2"
          by (simp_all add: main_def)
        moreover from failed_call_last [OF s2, of k e] k fail \<open>trM = tr2\<close> Inl
        have "k = length tr2 - 1 \<and> e' = e" by simp
        ultimately show ?thesis by simp
      next
        case c: (Inr coverPath)
        with asm Some p Inr cover have "trM = tr2"
          by (simp add: main_def)
        with failed_call_last [OF s2, of k e] k fail c show ?thesis by simp
      qed
    qed
  qed
  then show "k = length trM - 1" "err = Some e"
    "\<forall>a \<in> set artifacts. \<exists>name text. a = ManuscriptFile name text"
    by simp_all
next
  assume "writeFantasyNovel env prompt numChapters ws [] = Some (Inr res, trB)
        \<and> reply_of (service env (length trB) (ollama_request env
             (cover_prompt (json_stringify (records_json (chapterObjects res)))))) = Inl e"
  then show "main env prompt numChapters ws
          = Some ([ManuscriptFile (validFilename prompt) (novel res)], Some e,
                  trB @ [ollama_request env
                    (cover_prompt (json_stringify (records_json (chapterObjects res))))])"
    by (simp add: main_def createCoverImage_def generateCoverPrompt_def await_def callOllama_def Let_def)
qed

theorem generation_failure_aborts_witness:
  "callOllama (failing_runtime 0 Unreachable) ''Hello'' []
     = (Inl FetchFailed, [ollama_request (failing_runtime 0 Unreachable) ''Hello''])
   \<and> writeChapter faltering_runtime ''Storyline'' ''plot''
         (Some (JObject [(''Chapter 2 - Untitled'', JString ''This is chapter 2'')])) []
       = Some (Inl FetchFailed, replicate 2 (ollama_request faltering_runtime
            (chapter_prompt ''Storyline'' ''plot''
               (Some (JObject [(''Chapter 2 - Untitled'', JString ''This is chapter 2'')])))))
   \<and> (\<exists>trA. writeFantasyNovel (failing_runtime 2 (Response 503 Undecodable)) ''A lighthouse'' 2 ''plain'' []
                = Some (Inl (HttpStatus 503), trA)
         \<and> length trA = 3
         \<and> answered (failing_runtime 2 (Response 503 Undecodable)) trA 2 = Inl (HttpStatus 503)
         \<and> main (failing_runtime 2 (Response 503 Undecodable)) ''A lighthouse'' 2 ''plain''
             = Some ([], Some (HttpStatus 503), trA))
   \<and> (\<exists>res trB. writeFantasyNovel (failing_runtime 8 (Response 200 Undecodable)) ''A lighthouse'' 1 ''plain'' []
                = Some (Inr res, trB)
         \<and> length trB = 8
         \<and> answered (failing_runtime 8 (Response 200 Undecodable))
              (trB @ [ollama_request (failing_runtime 8 (Response 200 Undecodable))
                       (cover_prompt (json_stringify (records_json (chapterObjects res))))]) 8
              = Inl BodyUndecodable
         \<and> main (failing_runtime 8 (Response 200 Undecodable)) ''A lighthouse'' 1 ''plain''
             = Some ([ManuscriptFile (validFilename ''A lighthouse'') (novel res)], Some BodyUndecodable,
                     trB @ [ollama_request (failing_runtime 8 (Response 200 Undecodable))
                       (cover_prompt (json_stringify (records_json (chapterObjects res))))]))
   \<and> main terse_runtime ''A lighthouse'' 2 ''plain'' = None
   \<and> (\<exists>m req. \<forall>j. \<exists>r. reply_of (service terse_runtime (m + j) req) = Inr r \<and> length r < 1000)"
proof (intro conjI)
  have "reply_of (service (failing_runtime 0 Unreachable) (length [])
          (ollama_request (failing_runtime 0 Unreachable) ''Hello'')) = Inl FetchFailed"
    by (simp add: failing_runtime_def scripted_runtime_def)
  with generation_failure_aborts [of "failing_runtime 0 Unreachable" "[]" "''Hello''" FetchFailed]
  show "callOllama (failing_runtime 0 Unreachable) ''Hello'' []
     = (Inl FetchFailed, [ollama_request (failing_runtime 0 Unreachable) ''Hello''])"
    by simp
next
  let ?E = "Some (JObject [(''Chapter 2 - Untitled'', JString ''This is chapter 2'')])"
  have short: "reply_of (service faltering_runtime 0 req) = Inr ''Too short.''" for req
    by (simp add: faltering_runtime_def scripted_runtime_def short_parse)
  have fails: "reply_of (service faltering_runtime 1 req) = Inl FetchFailed" for req
    by (simp add: faltering_runtime_def scripted_runtime_def)
  have keys: "object_keys ?E = Inr [''Chapter 2 - Untitled'']"
    by simp
  show "writeChapter faltering_runtime ''Storyline'' ''plot'' ?E []
       = Some (Inl FetchFailed, replicate 2 (ollama_request faltering_runtime
            (chapter_prompt ''Storyline'' ''plot'' ?E)))"
    using generation_failure_aborts [where env = faltering_runtime and tr = "[]"
        and entry = ?E and ks = "[''Chapter 2 - Untitled'']" and prev = "''Storyline''"
        and plot = "''plot''" and e = FetchFailed and n = 1] short fails keys
    by (simp add: numeral_2_eq_2)
next
  let ?A = "failing_runtime 2 (Response 503 Undecodable)"
  have "\<exists>trA. writeFantasyNovel ?A ''A lighthouse'' 2 ''plain'' [] = Some (Inl (HttpStatus 503), trA)
          \<and> length trA = 3"
    by (simp add: run_defs)
  then obtain trA where
    run: "writeFantasyNovel ?A ''A lighthouse'' 2 ''plain'' [] = Some (Inl (HttpStatus 503), trA)" and
    len: "length trA = 3"
    by blast
  have fail: "answered ?A trA 2 = Inl (HttpStatus 503)"
    by (simp add: answered_def failing_runtime_def scripted_runtime_def)
  from generation_failure_aborts [where env = ?A and prompt = "''A lighthouse''" and numChapters = 2
      and ws = "''plain''" and e = "HttpStatus 503" and trA = trA and out = "Inl (HttpStatus 503)"
      and k = 2] run len fail
  have "main ?A ''A lighthouse'' 2 ''plain'' = Some ([], Some (HttpStatus 503), trA)"
    by simp
  with run len fail
  show "\<exists>trA. writeFantasyNovel ?A ''A lighthouse'' 2 ''plain'' [] = Some (Inl (HttpStatus 503), trA)
         \<and> length trA = 3
         \<and> answered ?A trA 2 = Inl (HttpStatus 503)
         \<and> main ?A ''A lighthouse'' 2 ''plain'' = Some ([], Some (HttpStatus 503), trA)"
    by blast
next
  let ?B = "failing_runtime 8 (Response 200 Undecodable)"
  have "\<exists>res trB. writeFantasyNovel ?B ''A lighthouse'' 1 ''plain'' [] = Some (Inr res, trB)
          \<and> length trB = 8"
    by (simp add: run_defs)
  then obtain res trB where
    run: "writeFantasyNovel ?B ''A lighthouse'' 1 ''plain'' [] = Some (Inr res, trB)" and
    len: "length trB = 8"
    by blast
  let ?req = "ollama_request ?B (cover_prompt (json_stringify (records_json (chapterObjects res))))"
  have reply: "reply_of (service ?B (length trB) req) = Inl BodyUndecodable" for req
    by (simp add: len failing_runtime_def scripted_runtime_def)
  with generation_failure_aborts [where env = ?B and prompt = "''A lighthouse''" and numChapters = 1
      and ws = "''plain''" and e = BodyUndecodable and res = res and trB = trB] run
  have main: "main ?B ''A lighthouse'' 1 ''plain''
             = Some ([ManuscriptFile (validFilename ''A lighthouse'') (novel res)], Some BodyUndecodable,
                     trB @ [?req])"
    by blast
  have fail: "answered ?B (trB @ [?req]) 8 = Inl BodyUndecodable"
    by (simp add: answered_def failing_runtime_def scripted_runtime_def)
  from generation_failure_aborts [where env = ?B and prompt = "''A lighthouse''" and numChapters = 1
      and ws = "''plain''" and e = BodyUndecodable and k = 8 and trM = "trB @ [?req]"
      and artifacts = "[ManuscriptFile (validFilename ''A lighthouse'') (novel res)]"
      and err = "Some BodyUndecodable"] main fail len
  have "(8::nat) = length (trB @ [?req]) - 1"
    by simp
  with run main len fail
  show "\<exists>res trB. writeFantasyNovel ?B ''A lighthouse'' 1 ''plain'' [] = Some (Inr res, trB)
         \<and> length trB = 8
         \<and> answered ?B (trB @ [ollama_request ?B
                       (cover_prompt (json_stringify (records_json (chapterObjects res))))]) 8
              = Inl BodyUndecodable
         \<and> main ?B ''A lighthouse'' 1 ''plain''
             = Some ([ManuscriptFile (validFilename ''A lighthouse'') (novel res)], Some BodyUndecodable,
                     trB @ [ollama_request ?B
                       (cover_prompt (json_stringify (records_json (chapterObjects res))))])"
    by blast
next
  show never: "main terse_runtime ''A lighthouse'' 2 ''plain'' = None"
    by (simp add: main_def terse_never_returns)
  with generation_failure_aborts [where env = terse_runtime and prompt = "''A lighthouse''"
      and numChapters = 2 and ws = "''plain''"]
  show "\<exists>m req. \<forall>j. \<exists>r. reply_of (service terse_runtime (m + j) req) = Inr r \<and> length r < 1000"
    by blast
qed

text \<open>
  The claim as stated fails for the last generation call of the program, the one for
  the cover caption: the service is unreachable at the ninth request of a one-chapter
  run, and the manuscript file has been written.
\<close>

theorem cover_call_failure_after_manuscript:
  "map_option fst (main (failing_runtime 8 Unreachable) ''A lighthouse'' 1 ''plain'')
     = Some [ManuscriptFile ''A lighthouse'' (manuscript long_text [long_text])]
   \<and> map_option (fst \<circ> snd) (main (failing_runtime 8 Unreachable) ''A lighthouse'' 1 ''plain'')
     = Some (Some FetchFailed)"
  by (simp add: main_def run_defs createCoverImage_def generateCoverPrompt_def manuscript_def
      validFilename_def filename_char_def trim_def is_space_def)

end
